theory Spec2Isabelle
  imports Main "HOL-Library.Product_Lexorder" "HOL-Library.Multiset"
begin

section \<open>Rows and values\<close>

text \<open>
  A timestamp is a civil date and time: year, month (1 to 12), day of the month and
  millisecond of the day, ordered lexicographically, which is the order of the ISO
  strings \<open>YYYY-MM-DD\<close> the scripts build.
\<close>

type_synonym timestamp = "nat \<times> nat \<times> nat \<times> nat"

datatype json = JNull | JBool bool | JNum int | JStr string
  | JArr "json list" | JObj "(string \<times> json) list"

text \<open>
  What the database driver hands over for one column of a row: null, a boolean, a number,
  a text, a \<open>Date\<close> object, or any other object (a parsed json or jsonb column).
\<close>

datatype val = VNull | VBool bool | VNum int | VStr string | VDate timestamp | VObj json

text \<open>A row is an object: its properties in insertion order.\<close>

type_synonym row = "(string \<times> val) list"

definition column :: "string \<Rightarrow> row \<Rightarrow> val" where
  "column c r = (case map_of r c of Some v \<Rightarrow> v | None \<Rightarrow> VNull)"

fun set_prop :: "string \<Rightarrow> 'v \<Rightarrow> (string \<times> 'v) list \<Rightarrow> (string \<times> 'v) list" where
  "set_prop k v [] = [(k, v)]"
| "set_prop k v ((k', v') # ps) = (if k = k' then (k, v) # ps else (k', v') # set_prop k v ps)"

section \<open>Strings\<close>

definition dquote :: char where "dquote = CHR 0x22"
definition newline :: char where "newline = CHR 0x0A"
definition comma :: char where "comma = CHR 0x2C"

text \<open>\<open>Array.prototype.join\<close> and \<open>String.prototype.split\<close> with a one-character separator.\<close>

fun join :: "string \<Rightarrow> string list \<Rightarrow> string" where
  "join sep [] = []"
| "join sep [x] = x"
| "join sep (x # y # ys) = x @ sep @ join sep (y # ys)"

fun split :: "char \<Rightarrow> string \<Rightarrow> string list" where
  "split c [] = [[]]"
| "split c (x # xs) =
     (if x = c then [] # split c xs
      else (case split c xs of [] \<Rightarrow> [[x]] | p # ps \<Rightarrow> (x # p) # ps))"

definition digit :: "nat \<Rightarrow> char" where
  "digit n = ''0123456789'' ! n"

text \<open>The decimal digits of a number, and \<open>String(i)\<close> for an integer.\<close>

fun nat_digits :: "nat \<Rightarrow> string" where
  "nat_digits n = (if 10 \<le> n then nat_digits (n div 10) else []) @ [digit (n mod 10)]"

definition int_toString :: "int \<Rightarrow> string" where
  "int_toString i = (if i < 0 then CHR ''-'' # nat_digits (nat (- i)) else nat_digits (nat i))"

text \<open>\<open>s.padStart(2, '0')\<close>.\<close>

definition padStart2 :: "string \<Rightarrow> string" where
  "padStart2 s = (if length s < 2 then replicate (2 - length s) CHR ''0'' @ s else s)"

text \<open>\<open>toUpperCase\<close> and \<open>toLowerCase\<close>, on the ASCII letters.\<close>

definition toUpperCase :: "string \<Rightarrow> string" where
  "toUpperCase s =
     map (\<lambda>c. case map_of (zip ''abcdefghijklmnopqrstuvwxyz'' ''ABCDEFGHIJKLMNOPQRSTUVWXYZ'') c of
                  Some u \<Rightarrow> u | None \<Rightarrow> c) s"

definition toLowerCase :: "string \<Rightarrow> string" where
  "toLowerCase s =
     map (\<lambda>c. case map_of (zip ''ABCDEFGHIJKLMNOPQRSTUVWXYZ'' ''abcdefghijklmnopqrstuvwxyz'') c of
                  Some u \<Rightarrow> u | None \<Rightarrow> c) s"

text \<open>\<open>s.replace(/"/g, '""')\<close>.\<close>

definition replace_quotes :: "string \<Rightarrow> string" where
  "replace_quotes s = concat (map (\<lambda>c. if c = dquote then [dquote, dquote] else [c]) s)"

section \<open>Configuration and environment\<close>

text \<open>
  The constants of the scripts (\<open>tableName\<close>, \<open>BATCH_SIZE\<close>), the answer of the
  catalogue query of \<open>fetchTableHeaders\<close> (\<open>table_columns\<close>), the two library
  formatters the serialisation calls (\<open>moment(d).format('YYYY-MM-DDTHH:mm:ss.SSS[Z]')\<close>
  and \<open>JSON.stringify\<close>), whether the time zone of the process is behind UTC, and
  what the outside answers: the keys for which the object storage rejects a put, and the
  rows the database rejects in a \<open>COPY\<close> (a type, a constraint or an unknown column).
\<close>

record env =
  tableName :: string
  BATCH_SIZE :: nat
  table_columns :: "string list"
  moment_format :: "timestamp \<Rightarrow> string"
  JSON_stringify :: "json \<Rightarrow> string"
  west_of_UTC :: bool
  put_fails :: "string \<Rightarrow> bool"
  row_rejected :: "row \<Rightarrow> bool"

section \<open>Serialisation of a batch (writeToCompressedFile, lines 214 to 230)\<close>

text \<open>
  The body of the \<open>for (const key in newRow)\<close> loop, for one value: a \<open>Date\<close> becomes
  its formatted text, any other object its JSON text with the quotes doubled and a quote
  on each side; null (falsy) and the scalars stay.
\<close>

definition serialize_value :: "env \<Rightarrow> val \<Rightarrow> val" where
  "serialize_value e v =
     (case v of
        VDate t \<Rightarrow> VStr (moment_format e t)
      | VObj j \<Rightarrow> VStr ([dquote] @ replace_quotes (JSON_stringify e j) @ [dquote])
      | _ \<Rightarrow> v)"

definition serializeRow :: "env \<Rightarrow> row \<Rightarrow> row" where
  "serializeRow e r = map (\<lambda>(k, v). (k, serialize_value e v)) r"

subsection \<open>The same lines on a heap of row objects\<close>

text \<open>
  The rows are objects: an address is an index into the heap. \<open>{ ...row }\<close> allocates
  a new object with the properties of \<open>row\<close>; \<open>newRow[key] = v\<close> writes into the
  object at \<open>newRow\<close>; \<open>rows.map\<close> returns the addresses of the new objects.
\<close>

type_synonym heap = "row list"

definition spread_copy :: "heap \<Rightarrow> nat \<Rightarrow> nat \<times> heap" where
  "spread_copy h a = (length h, h @ [h ! a])"

definition assign :: "nat \<Rightarrow> string \<Rightarrow> val \<Rightarrow> heap \<Rightarrow> heap" where
  "assign a k v h = h[a := set_prop k v (h ! a)]"

definition serialize_key :: "env \<Rightarrow> nat \<Rightarrow> string \<Rightarrow> heap \<Rightarrow> heap" where
  "serialize_key e newRow key h =
     (case column key (h ! newRow) of
        VDate t \<Rightarrow> assign newRow key (VStr (moment_format e t)) h
      | VObj j \<Rightarrow>
          assign newRow key (VStr ([dquote] @ replace_quotes (JSON_stringify e j) @ [dquote])) h
      | _ \<Rightarrow> h)"

text \<open>
  What one pass of the \<open>for\<close> loop makes of the properties of the new object.
\<close>

definition serialize_prop :: "env \<Rightarrow> string \<Rightarrow> row \<Rightarrow> row" where
  "serialize_prop e key r =
     (case column key r of
        VDate t \<Rightarrow> set_prop key (VStr (moment_format e t)) r
      | VObj j \<Rightarrow> set_prop key (VStr ([dquote] @ replace_quotes (JSON_stringify e j) @ [dquote])) r
      | _ \<Rightarrow> r)"

definition serialize_object :: "env \<Rightarrow> heap \<Rightarrow> nat \<Rightarrow> nat \<times> heap" where
  "serialize_object e h a =
     (case spread_copy h a of (newRow, h1) \<Rightarrow>
        (newRow, fold (serialize_key e newRow) (map fst (h1 ! newRow)) h1))"

fun serializedRows :: "env \<Rightarrow> nat list \<Rightarrow> heap \<Rightarrow> nat list \<times> heap" where
  "serializedRows e [] h = ([], h)"
| "serializedRows e (a # as) h =
     (case serialize_object e h a of (newRow, h1) \<Rightarrow>
        (case serializedRows e as h1 of (ns, h2) \<Rightarrow> (newRow # ns, h2)))"

section \<open>The csv-writer library, as createObjectCsvWriter is configured\<close>

text \<open>
  \<open>alwaysQuote: true\<close> selects the stringifier that quotes every field that is not
  empty; null, undefined and the empty string are written as nothing. Records end with
  a line feed. \<open>js_String\<close> is \<open>String(value)\<close>; after the serialisation no \<open>Date\<close>
  and no object is left, so its last two cases are never taken. \<open>VNum\<close> stands for
  the numbers \<open>String\<close> prints as a plain decimal integer (integers below \<open>10^21\<close> in
  size, as the driver returns them for smallint and integer columns; it returns bigint
  and numeric columns as text); fractions, larger numbers and \<open>NaN\<close> are not modelled.
\<close>

definition js_String :: "val \<Rightarrow> string" where
  "js_String v =
     (case v of
        VNull \<Rightarrow> ''null''
      | VBool b \<Rightarrow> (if b then ''true'' else ''false'')
      | VNum i \<Rightarrow> int_toString i
      | VStr s \<Rightarrow> s
      | VDate t \<Rightarrow> ''[object Date]''
      | VObj j \<Rightarrow> ''[object Object]'')"

definition isEmpty :: "val \<Rightarrow> bool" where
  "isEmpty v = (v = VNull \<or> v = VStr [])"

definition quoteField :: "string \<Rightarrow> string" where
  "quoteField field = [dquote] @ replace_quotes field @ [dquote]"

definition stringify :: "val \<Rightarrow> string" where
  "stringify v = (if isEmpty v then [] else quoteField (js_String v))"

text \<open>The text a field carries, without the quotes around it.\<close>

definition field_text :: "val \<Rightarrow> string" where
  "field_text v = (if isEmpty v then [] else js_String v)"

definition getCsvLine :: "val list \<Rightarrow> string" where
  "getCsvLine record = join [comma] (map stringify record)"

definition joinRecords :: "string list \<Rightarrow> string" where
  "joinRecords records = join [newline] records @ [newline]"

text \<open>
  A header of the writer: the property to read (\<open>id\<close>) and the title to print. The
  writer takes its header for a list of such objects when the first element is an object
  (\<open>isObjectHeader\<close>); an empty list has no first element, so it has no header record,
  \<open>getHeaderString\<close> is \<open>null\<close> and the file gets no header line.
\<close>

type_synonym header = "string \<times> string"

definition isObjectHeader :: "header list \<Rightarrow> bool" where
  "isObjectHeader headers = (headers \<noteq> [])"

definition getHeaderRecord :: "header list \<Rightarrow> string list option" where
  "getHeaderRecord headers = (if isObjectHeader headers then Some (map snd headers) else None)"

definition getHeaderString :: "header list \<Rightarrow> string option" where
  "getHeaderString headers =
     (case getHeaderRecord headers of
        Some headerRecord \<Rightarrow> Some (joinRecords [getCsvLine (map VStr headerRecord)])
      | None \<Rightarrow> None)"

text \<open>\<open>headerString || ''\<close>, for a writer that does not append.\<close>

definition headerString :: "header list \<Rightarrow> string" where
  "headerString headers = (case getHeaderString headers of Some s \<Rightarrow> s | None \<Rightarrow> [])"

definition getRecordAsArray :: "header list \<Rightarrow> row \<Rightarrow> val list" where
  "getRecordAsArray headers r = map (\<lambda>h. column (fst h) r) headers"

definition stringifyRecords :: "header list \<Rightarrow> row list \<Rightarrow> string" where
  "stringifyRecords headers records =
     joinRecords (map (\<lambda>r. getCsvLine (getRecordAsArray headers r)) records)"

text \<open>What the first \<open>writeRecords\<close> call of a writer puts into its file.\<close>

definition writeRecords :: "header list \<Rightarrow> row list \<Rightarrow> string" where
  "writeRecords headers records = headerString headers @ stringifyRecords headers records"

definition fetchTableHeaders :: "env \<Rightarrow> header list" where
  "fetchTableHeaders e = map (\<lambda>c. (c, toUpperCase c)) (table_columns e)"

section \<open>The csv-parse library, with the options of the restore script\<close>

text \<open>
  Delimiter comma, quote and escape the double quote, records ended by a line feed (what
  the archive files have), \<open>relax_quotes\<close> off, \<open>relax_column_count\<close> on. The flag
  is \<open>skip_empty_lines\<close>. The parser's state is the field and the record being read,
  whether it is inside a quoted field, whether the field being read was quoted, and the
  records emitted so far. The parser stops at the first error; the records before it
  are emitted.
\<close>

datatype csv_error = InvalidOpeningQuote | InvalidClosingQuote | QuoteNotClosed

record pstate =
  p_field :: string
  p_record :: "string list"
  p_quoting :: bool
  p_wasQuoting :: bool
  p_records :: "string list list"

definition onField :: "pstate \<Rightarrow> pstate" where
  "onField p = p\<lparr>p_record := p_record p @ [p_field p], p_field := [], p_wasQuoting := False\<rparr>"

definition onRecord :: "pstate \<Rightarrow> pstate" where
  "onRecord p = p\<lparr>p_records := p_records p @ [p_record p], p_record := []\<rparr>"

fun parse_chars :: "bool \<Rightarrow> string \<Rightarrow> pstate \<Rightarrow> pstate \<times> csv_error option" where
  "parse_chars skip [] p =
     (if p_quoting p then (p, Some QuoteNotClosed)
      else if p_wasQuoting p \<or> p_record p \<noteq> [] \<or> p_field p \<noteq> [] then (onRecord (onField p), None)
      else (p, None))"
| "parse_chars skip (c # cs) p =
     (if p_quoting p \<and> c = dquote \<and> cs \<noteq> [] \<and> hd cs = dquote
        then parse_chars skip (tl cs) (p\<lparr>p_field := p_field p @ [dquote]\<rparr>)
      else if c = dquote then
        (if p_quoting p then
           (if cs = [] \<or> hd cs = comma \<or> hd cs = newline
              then parse_chars skip cs (p\<lparr>p_quoting := False, p_wasQuoting := True\<rparr>)
            else (p, Some InvalidClosingQuote))
         else if p_field p \<noteq> [] then (p, Some InvalidOpeningQuote)
         else parse_chars skip cs (p\<lparr>p_quoting := True\<rparr>))
      else if \<not> p_quoting p \<and> c = newline then
        (if skip \<and> \<not> p_wasQuoting p \<and> p_record p = [] \<and> p_field p = []
           then parse_chars skip cs p
         else parse_chars skip cs (onRecord (onField p)))
      else if \<not> p_quoting p \<and> c = comma then parse_chars skip cs (onField p)
      else parse_chars skip cs (p\<lparr>p_field := p_field p @ [c]\<rparr>))"

text \<open>The parser between two fields, with the fields of the record and the records read so far.\<close>

definition at_field_start :: "string list \<Rightarrow> string list list \<Rightarrow> pstate" where
  "at_field_start acc recs =
     \<lparr>p_field = [], p_record = acc, p_quoting = False, p_wasQuoting = False, p_records = recs\<rparr>"

definition csv_parse :: "bool \<Rightarrow> string \<Rightarrow> string list list \<times> csv_error option" where
  "csv_parse skip text =
     (case parse_chars skip text (at_field_start [] []) of (p, err) \<Rightarrow> (p_records p, err))"

text \<open>
  \<open>columns: true\<close>: the first record names the columns, every later record becomes an
  object. A record shorter than the columns leaves the last properties out, a longer one
  loses its last fields, and neither is an error (\<open>relax_column_count\<close>).
\<close>

definition to_object :: "string list \<Rightarrow> string list \<Rightarrow> (string \<times> string) list" where
  "to_object columns record = fold (\<lambda>(k, v) obj. set_prop k v obj) (zip columns record) []"

definition records_of :: "string list list \<Rightarrow> (string \<times> string) list list" where
  "records_of parsed = (case parsed of [] \<Rightarrow> [] | columns # rest \<Rightarrow> map (to_object columns) rest)"

section \<open>The batch statement of processMonth\<close>

text \<open>
  \<^verbatim>\<open>WITH cte AS (SELECT id FROM t WHERE created_at >= $1 AND created_at < $2
                    ORDER BY created_at ASC LIMIT $3)
   DELETE FROM t WHERE id IN (SELECT id FROM cte) RETURNING *\<close>

  A comparison with a NULL \<open>created_at\<close> is not true, so such a row is never selected;
  \<open>id IN (...)\<close> is not true for a NULL \<open>id\<close>. Among equal \<open>created_at\<close> the
  database may pick any order; the model keeps the table's order (a stable sort).
\<close>

definition in_window :: "timestamp \<Rightarrow> timestamp \<Rightarrow> row \<Rightarrow> bool" where
  "in_window lo hi r =
     (case column ''created_at'' r of VDate t \<Rightarrow> lo \<le> t \<and> t < hi | _ \<Rightarrow> False)"

definition created_key :: "row \<Rightarrow> timestamp" where
  "created_key r = (case column ''created_at'' r of VDate t \<Rightarrow> t | _ \<Rightarrow> (0, 0, 0, 0))"

definition cte_rows :: "row list \<Rightarrow> timestamp \<Rightarrow> timestamp \<Rightarrow> nat \<Rightarrow> row list" where
  "cte_rows tbl lo hi n = take n (sort_key created_key (filter (in_window lo hi) tbl))"

definition cte :: "row list \<Rightarrow> timestamp \<Rightarrow> timestamp \<Rightarrow> nat \<Rightarrow> val list" where
  "cte tbl lo hi n = map (column ''id'') (cte_rows tbl lo hi n)"

definition sql_in :: "val \<Rightarrow> val list \<Rightarrow> bool" where
  "sql_in v vs = (v \<noteq> VNull \<and> v \<in> set vs)"

text \<open>The rows the statement returns, and the table it leaves.\<close>

definition delete_returning ::
  "row list \<Rightarrow> timestamp \<Rightarrow> timestamp \<Rightarrow> nat \<Rightarrow> row list \<times> row list" where
  "delete_returning tbl lo hi n =
     (let ids = cte tbl lo hi n
      in (filter (\<lambda>r. sql_in (column ''id'' r) ids) tbl,
          filter (\<lambda>r. \<not> sql_in (column ''id'' r) ids) tbl))"

text \<open>\<open>id\<close> is the table's primary key: never NULL, never repeated.\<close>

definition primary_key :: "row list \<Rightarrow> bool" where
  "primary_key tbl =
     (distinct (map (column ''id'') tbl) \<and> VNull \<notin> set (map (column ''id'') tbl))"

definition window_count :: "timestamp \<Rightarrow> timestamp \<Rightarrow> row list \<Rightarrow> nat" where
  "window_count lo hi tbl = length (filter (in_window lo hi) tbl)"


section \<open>The world the scripts act on\<close>

text \<open>
  The table (its committed rows), the transaction of the pooled connection (its working
  copy of the table while one is open: the pool hands the same connection out again and
  \<open>release\<close> does not end a transaction), the bucket, the local files, the commands
  sent to the database, and the errors printed with \<open>console.error\<close>.
  \<open>zlib.gzipSync\<close> is the constructor \<open>Gzipped\<close>, \<open>gunzipSync\<close> its inverse.
\<close>

datatype content = Plain string | Gzipped string

datatype error =
    MalformedCsv
  | GenerationFailed
  | NoSuchFile string
  | UploadFailed string
  | NoSuchKey string
  | NotGzip
  | ParseError csv_error
  | CopyFailed

datatype db_cmd =
    Connect | Release | Begin | Commit | Rollback
  | DeleteReturning nat | SelectCount | SelectColumns | CopyFrom

record world =
  db_table :: "row list"
  txn :: "row list option"
  bucket :: "string \<rightharpoonup> content"
  files :: "string \<rightharpoonup> content"
  db_log :: "db_cmd list"
  console_error :: "error list"

definition BACKUP_PATH :: string where
  "BACKUP_PATH = ''backup_logs''"

definition sent :: "db_cmd \<Rightarrow> world \<Rightarrow> world" where
  "sent c w = w\<lparr>db_log := db_log w @ [c]\<rparr>"

definition caught :: "error \<Rightarrow> world \<Rightarrow> world" where
  "caught err w = w\<lparr>console_error := console_error w @ [err]\<rparr>"

text \<open>The rows a statement on the connection sees.\<close>

definition visible :: "world \<Rightarrow> row list" where
  "visible w = (case txn w of None \<Rightarrow> db_table w | Some t \<Rightarrow> t)"

text \<open>\<open>BEGIN\<close> inside an open transaction changes nothing (the server only warns).\<close>

definition BEGIN :: "world \<Rightarrow> world" where
  "BEGIN w = sent Begin (w\<lparr>txn := Some (visible w)\<rparr>)"

definition COMMIT :: "world \<Rightarrow> world" where
  "COMMIT w = sent Commit (w\<lparr>db_table := visible w, txn := None\<rparr>)"

definition ROLLBACK :: "world \<Rightarrow> world" where
  "ROLLBACK w = sent Rollback (w\<lparr>txn := None\<rparr>)"

text \<open>What a statement writes: the working copy inside a transaction, the table outside.\<close>

definition store :: "row list \<Rightarrow> world \<Rightarrow> world" where
  "store t w = (case txn w of None \<Rightarrow> w\<lparr>db_table := t\<rparr> | Some _ \<Rightarrow> w\<lparr>txn := Some t\<rparr>)"

definition getRowCount :: "world \<Rightarrow> nat \<times> world" where
  "getRowCount w = (length (visible w), sent Release (sent SelectCount (sent Connect w)))"

section \<open>The archive writer (writeToCompressedFile, uploadToS3)\<close>

definition yearMonth_of :: "nat \<Rightarrow> nat \<Rightarrow> string" where
  "yearMonth_of year month = nat_digits year @ ''-'' @ padStart2 (nat_digits month)"

definition csvPath :: "env \<Rightarrow> nat \<Rightarrow> nat \<Rightarrow> nat \<Rightarrow> string" where
  "csvPath e year month batchNumber =
     BACKUP_PATH @ ''/'' @ tableName e @ ''_'' @ yearMonth_of year month
       @ ''_batch'' @ nat_digits batchNumber @ ''.csv''"

definition s3Key_of :: "env \<Rightarrow> nat \<Rightarrow> nat \<Rightarrow> nat \<Rightarrow> string" where
  "s3Key_of e year month batchNumber =
     ''db_backup/'' @ tableName e @ ''/'' @ yearMonth_of year month @ ''/backup_''
       @ yearMonth_of year month @ ''_batch'' @ nat_digits batchNumber @ ''.csv.gz''"

definition writeToCompressedFile ::
  "env \<Rightarrow> row list \<Rightarrow> nat \<Rightarrow> nat \<Rightarrow> nat \<Rightarrow> header list \<Rightarrow> world \<Rightarrow> (error + string) \<times> world" where
  "writeToCompressedFile e rows year month batchNumber headers w =
     (let serialized = map (serializeRow e) rows;
          filePath = csvPath e year month batchNumber;
          w1 = w\<lparr>files := (files w)(filePath \<mapsto> Plain (writeRecords headers serialized))\<rparr>
      in case files w1 filePath of
           Some (Plain fileContents) \<Rightarrow>
             if fileContents = [] \<or> length (split newline fileContents) < 2
             then (Inl MalformedCsv, w1)
             else
               let compressedPath = filePath @ ''.gz'';
                   w2 = w1\<lparr>files := (files w1)(compressedPath \<mapsto> Gzipped fileContents)\<rparr>;
                   w3 = w2\<lparr>files := (files w2)(filePath := None)\<rparr>
               in if files w3 compressedPath = None then (Inl GenerationFailed, w3)
                  else (Inr compressedPath, w3)
         | _ \<Rightarrow> (Inl (NoSuchFile filePath), w1))"

definition uploadToS3 :: "env \<Rightarrow> string \<Rightarrow> string \<Rightarrow> world \<Rightarrow> (error + unit) \<times> world" where
  "uploadToS3 e filePath s3Key w =
     (case files w filePath of
        None \<Rightarrow> (Inl (NoSuchFile filePath), w)
      | Some fileContents \<Rightarrow>
          if put_fails e s3Key then (Inl (UploadFailed s3Key), caught (UploadFailed s3Key) w)
          else (Inr (), w\<lparr>bucket := (bucket w)(s3Key \<mapsto> fileContents)\<rparr>))"

section \<open>processMonth\<close>

text \<open>
  The window of a month. \<open>new Date(year, month, 1)\<close> takes a year from 0 to 99 as
  1900 plus that year.
\<close>

definition monthStart_of :: "nat \<Rightarrow> nat \<Rightarrow> timestamp" where
  "monthStart_of year month = (year, month, 1, 0)"

definition nextMonthStart_of :: "nat \<Rightarrow> nat \<Rightarrow> timestamp" where
  "nextMonthStart_of year month =
     (let y = (if year \<le> 99 then 1900 + year else year)
      in if month \<ge> 12 then (y + 1, 1, 1, 0) else (y, month + 1, 1, 0))"

text \<open>
  One pass through the body of \<open>while (true)\<close>: the loop is left (\<open>break\<close>), goes
  on with the batch's row count, or the error is thrown again after the rollback. The
  \<open>finally\<close> block releases the connection on each of the three ways out.
\<close>

datatype step = Break | Continue nat | Threw error

definition processMonth_body ::
  "env \<Rightarrow> nat \<Rightarrow> nat \<Rightarrow> header list \<Rightarrow> nat \<Rightarrow> world \<Rightarrow> step \<times> world" where
  "processMonth_body e year month headers batchNumber w =
     (let w1 = BEGIN (sent Connect w)
      in case delete_returning (visible w1) (monthStart_of year month)
                (nextMonthStart_of year month) (BATCH_SIZE e) of
           (rows, rest) \<Rightarrow>
             (let w2 = sent (DeleteReturning (length rows)) (store rest w1)
              in if rows = [] then (Break, sent Release w2)
                 else
                   case writeToCompressedFile e rows year month batchNumber headers w2 of
                     (Inl err, w3) \<Rightarrow> (Threw err, sent Release (ROLLBACK (caught err w3)))
                   | (Inr filePath, w3) \<Rightarrow>
                       (case uploadToS3 e filePath (s3Key_of e year month batchNumber) w3 of
                          (Inl err, w4) \<Rightarrow> (Threw err, sent Release (ROLLBACK (caught err w4)))
                        | (Inr _, w4) \<Rightarrow> (Continue (length rows), sent Release (COMMIT w4)))))"

lemma delete_returning_length:
  "length (fst (delete_returning t lo hi n)) + length (snd (delete_returning t lo hi n)) = length t"
  by (simp add: delete_returning_def Let_def sum_length_filter_compl)

lemma writeToCompressedFile_db:
  "writeToCompressedFile e rows y m b hs w = (r, w') \<Longrightarrow> db_table w' = db_table w \<and> txn w' = txn w"
  by (auto simp: writeToCompressedFile_def Let_def split: option.splits content.splits if_splits)

lemma uploadToS3_db:
  "uploadToS3 e p k w = (r, w') \<Longrightarrow> db_table w' = db_table w \<and> txn w' = txn w"
  by (auto simp: uploadToS3_def caught_def split: option.splits if_splits)

lemma processMonth_body_Continue:
  assumes "processMonth_body e y m hs b w = (Continue n, w')"
  shows "length (visible w') < length (visible w)"
proof -
  let ?w1 = "BEGIN (sent Connect w)"
  obtain rows rest where
    d: "delete_returning (visible ?w1) (monthStart_of y m) (nextMonthStart_of y m) (BATCH_SIZE e)
          = (rows, rest)"
    by force
  let ?w2 = "sent (DeleteReturning (length rows)) (store rest ?w1)"
  obtain r3 w3 where wr: "writeToCompressedFile e rows y m b hs ?w2 = (r3, w3)"
    by force
  have v1: "visible ?w1 = visible w"
    by (simp add: BEGIN_def sent_def visible_def split: option.splits)
  have t2: "txn ?w2 = Some rest"
    by (simp add: BEGIN_def sent_def store_def)
  from assms have ne: "rows \<noteq> []"
    by (auto simp: processMonth_body_def Let_def d split: if_splits)
  with assms obtain p where r3: "r3 = Inr p"
    by (cases r3) (auto simp: processMonth_body_def Let_def d wr)
  obtain r4 w4 where up: "uploadToS3 e p (s3Key_of e y m b) w3 = (r4, w4)"
    by force
  from assms ne have w': "w' = sent Release (COMMIT w4)"
    by (cases r4) (auto simp: processMonth_body_def Let_def d wr r3 up)
  from writeToCompressedFile_db [OF wr] uploadToS3_db [OF up] t2
  have "txn w4 = Some rest" by simp
  then have "visible w' = rest"
    by (simp add: w' COMMIT_def sent_def visible_def)
  moreover have "length rest < length (visible ?w1)"
    using delete_returning_length [of "visible ?w1" "monthStart_of y m" "nextMonthStart_of y m" "BATCH_SIZE e"] ne
    by (cases rows) (auto simp: d)
  ultimately show ?thesis by (simp add: v1)
qed

text \<open>
  The loop, with its two counters. It ends: a pass that goes on has deleted at least one
  of the rows the connection sees.
\<close>

function processMonth_loop ::
  "env \<Rightarrow> nat \<Rightarrow> nat \<Rightarrow> header list \<Rightarrow> nat \<Rightarrow> nat \<Rightarrow> world \<Rightarrow> (error + nat) \<times> world" where
  "processMonth_loop e year month headers batchNumber totalDeleted w =
     (case processMonth_body e year month headers batchNumber w of
        (Break, w') \<Rightarrow> (Inr totalDeleted, w')
      | (Threw err, w') \<Rightarrow> (Inl err, w')
      | (Continue n, w') \<Rightarrow>
          processMonth_loop e year month headers (batchNumber + 1) (totalDeleted + n) w')"
  by pat_completeness auto
termination
  by (relation "measure (\<lambda>(e, year, month, headers, batchNumber, totalDeleted, w). length (visible w))")
     (auto dest: processMonth_body_Continue [OF sym])

definition processMonth :: "env \<Rightarrow> nat \<Rightarrow> nat \<Rightarrow> world \<Rightarrow> (error + nat) \<times> world" where
  "processMonth e year month w =
     processMonth_loop e year month (fetchTableHeaders e) 1 0
       (sent Release (sent SelectColumns (sent Connect w)))"

section \<open>backupAndDeleteRows\<close>

text \<open>
  A \<open>Date\<close> is kept as its local fields, which the getters and \<open>setMonth\<close> work on:
  year, month (1 to 12) and day in the time zone of the process. The time of day is the
  same for all dates of a run (time zones with a fixed offset from UTC), so two dates
  compare as their fields do. \<open>setMonth(getMonth() + 1)\<close> keeps the day of the month,
  and a day the next month does not have runs over into the month after it.
\<close>

type_synonym date = "nat \<times> nat \<times> nat"

definition is_leap :: "nat \<Rightarrow> bool" where
  "is_leap y = (y mod 4 = 0 \<and> (y mod 100 \<noteq> 0 \<or> y mod 400 = 0))"

definition days_in_month :: "nat \<Rightarrow> nat \<Rightarrow> nat" where
  "days_in_month y m =
     (if m = 2 then (if is_leap y then 29 else 28)
      else if m = 4 \<or> m = 6 \<or> m = 9 \<or> m = 11 then 30 else 31)"

definition valid_date :: "date \<Rightarrow> bool" where
  "valid_date dt =
     (case dt of (y, m, d) \<Rightarrow> 1 \<le> m \<and> m \<le> 12 \<and> 1 \<le> d \<and> d \<le> days_in_month y m)"

fun month_after :: "nat \<times> nat \<Rightarrow> nat \<times> nat" where
  "month_after (y, m) = (if m \<ge> 12 then (y + 1, 1) else (y, m + 1))"

fun setMonth_next :: "date \<Rightarrow> date" where
  "setMonth_next (y, m, d) =
     (case month_after (y, m) of (y1, m1) \<Rightarrow>
        if d \<le> days_in_month y1 m1 then (y1, m1, d)
        else (case month_after (y1, m1) of (y2, m2) \<Rightarrow> (y2, m2, d - days_in_month y1 m1)))"

text \<open>
  \<open>new Date('YYYY-MM-DD')\<close> is midnight UTC of that day: at or east of UTC its local
  day is the day of the text, west of UTC it is the day before. A day from 29 to 31 that
  the month does not have runs over into the next month; any other text outside the
  calendar gives an invalid \<open>Date\<close>, with which every comparison is false. (The day
  before the first of January of year 0 is not modelled.)
\<close>

definition day_before :: "date \<Rightarrow> date" where
  "day_before dt =
     (case dt of (y, m, d) \<Rightarrow>
        if 1 < d then (y, m, d - 1)
        else if 1 < m then (y, m - 1, days_in_month y (m - 1))
        else (y - 1, 12, 31))"

definition new_Date :: "env \<Rightarrow> date \<Rightarrow> date option" where
  "new_Date e text =
     (case text of (y, m, d) \<Rightarrow>
        if 1 \<le> m \<and> m \<le> 12 \<and> 1 \<le> d \<and> d \<le> 31 then
          (let utc = (if d \<le> days_in_month y m then (y, m, d)
                      else (case month_after (y, m) of (y1, m1) \<Rightarrow> (y1, m1, d - days_in_month y m)))
           in Some (if west_of_UTC e then day_before utc else utc))
        else None)"

text \<open>The (year, month) pairs the \<open>while (currentDate <= endDate)\<close> loop passes to processMonth.\<close>

function month_loop :: "date \<Rightarrow> date \<Rightarrow> (nat \<times> nat) list" where
  "month_loop currentDate endDate =
     (if currentDate \<le> endDate
      then (fst currentDate, fst (snd currentDate)) # month_loop (setMonth_next currentDate) endDate
      else [])"
  by pat_completeness auto
termination
proof (relation "measures [\<lambda>(c, e). fst e + 1 - fst c, \<lambda>(c, e). 13 - fst (snd c)]")
  show "wf (measures [\<lambda>(c, e). fst e + 1 - fst c, \<lambda>(c::date, e::date). 13 - fst (snd c)])"
    by simp
next
  fix currentDate endDate :: date
  assume le: "currentDate \<le> endDate"
  obtain y m d where c: "currentDate = (y, m, d)" by (cases currentDate) auto
  obtain ye me de where e: "endDate = (ye, me, de)" by (cases endDate) auto
  from le c e have yle: "y \<le> ye" by (auto simp: less_eq_prod_def)
  show "((setMonth_next currentDate, endDate), (currentDate, endDate))
          \<in> measures [\<lambda>(c, e). fst e + 1 - fst c, \<lambda>(c, e). 13 - fst (snd c)]"
    using yle by (auto simp: c e split: if_splits)
qed

declare month_loop.simps [simp del]

text \<open>An error of a month leaves the loop: nothing catches it.\<close>

fun months_run :: "env \<Rightarrow> (nat \<times> nat) list \<Rightarrow> world \<Rightarrow> (error + unit) \<times> world" where
  "months_run e [] w = (Inr (), w)"
| "months_run e ((year, month) # ms) w =
     (case processMonth e year month w of
        (Inl err, w') \<Rightarrow> (Inl err, w')
      | (Inr _, w') \<Rightarrow> months_run e ms w')"

definition months_of :: "env \<Rightarrow> date \<Rightarrow> date \<Rightarrow> (nat \<times> nat) list" where
  "months_of e START_DATE END_DATE =
     (case (new_Date e START_DATE, new_Date e END_DATE) of
        (Some currentDate, Some endDate) \<Rightarrow> month_loop currentDate endDate
      | _ \<Rightarrow> [])"

definition backupAndDeleteRows :: "env \<Rightarrow> date \<Rightarrow> date \<Rightarrow> world \<Rightarrow> (error + unit) \<times> world" where
  "backupAndDeleteRows e START_DATE END_DATE w =
     (case months_run e (months_of e START_DATE END_DATE) (snd (getRowCount w)) of
        (Inl err, w') \<Rightarrow> (Inl err, w')
      | (Inr u, w') \<Rightarrow> (Inr u, snd (getRowCount w')))"

text \<open>Whether a day lies in the window of a processed month.\<close>

definition in_month :: "date \<Rightarrow> nat \<times> nat \<Rightarrow> bool" where
  "in_month d ym =
     (monthStart_of (fst ym) (snd ym) \<le> (fst d, fst (snd d), snd (snd d), 0)
      \<and> (fst d, fst (snd d), snd (snd d), 0) < nextMonthStart_of (fst ym) (snd ym))"

section \<open>The restore script\<close>

definition get_prop :: "(string \<times> string) list \<Rightarrow> string \<Rightarrow> string" where
  "get_prop record header = (case map_of record header of Some v \<Rightarrow> v | None \<Rightarrow> [])"

text \<open>
  \<open>Object.keys\<close>: first the keys that are array indices (the decimal text of a number
  below \<open>2^32 - 1\<close>, with no leading zero) in ascending numeric order, then the other
  keys in the order in which they were added.
\<close>

definition digit_value :: "char \<Rightarrow> nat" where
  "digit_value c = (case map_of (zip ''0123456789'' [0 ..< 10]) c of Some n \<Rightarrow> n | None \<Rightarrow> 0)"

definition digits_value :: "string \<Rightarrow> nat" where
  "digits_value s = fold (\<lambda>c n. 10 * n + digit_value c) s 0"

definition is_array_index :: "string \<Rightarrow> bool" where
  "is_array_index s =
     (s \<noteq> [] \<and> list_all (\<lambda>c. c \<in> set ''0123456789'') s
      \<and> (if hd s = CHR ''0'' then length s = 1 else True) \<and> digits_value s < 2 ^ 32 - 1)"

definition Object_keys :: "(string \<times> 'v) list \<Rightarrow> string list" where
  "Object_keys obj =
     sort_key digits_value (filter is_array_index (map fst obj))
       @ filter (\<lambda>k. \<not> is_array_index k) (map fst obj)"

text \<open>
  What the loop of preprocessCsvFile writes: the keys of the first record as the header
  line, then each record's values for these keys (nothing for a key the record does not
  have), joined by commas with no quoting.
\<close>

definition processed_text :: "(string \<times> string) list list \<Rightarrow> string" where
  "processed_text records =
     (case records of
        [] \<Rightarrow> []
      | first # _ \<Rightarrow>
          (let headers = Object_keys first
           in join [comma] headers @ [newline]
              @ concat (map (\<lambda>record. join [comma] (map (get_prop record) headers) @ [newline])
                  records)))"

text \<open>
  How a step of the restore ends: it returns, it throws, its promise never settles, or
  the process dies. No listener handles the \<open>error\<close> event of a read stream on a file
  that does not exist, so the process ends there with exit code 1. preprocessCsvFile
  does not wait for its output stream to finish; the model takes the output file as
  written when the function returns.
\<close>

datatype outcome = Done | Failed error | Hangs | Dies

definition preprocessCsvFile :: "string \<Rightarrow> string \<Rightarrow> world \<Rightarrow> outcome \<times> world" where
  "preprocessCsvFile inputFilePath outputFilePath w =
     (case files w inputFilePath of
        Some (Plain text) \<Rightarrow>
          (case csv_parse True text of
             (parsed, Some err) \<Rightarrow>
               (Failed (ParseError err), w\<lparr>files := (files w)(outputFilePath \<mapsto> Plain [])\<rparr>)
           | (parsed, None) \<Rightarrow>
               (Done,
                w\<lparr>files := (files w)(outputFilePath \<mapsto> Plain (processed_text (records_of parsed)))\<rparr>))
      | _ \<Rightarrow> (Dies, w))"

text \<open>
  readCsvHeaders settles with the first record the parser emits; a file without a data
  record and without an error leaves the promise pending for ever.
\<close>

datatype 'a promise = Resolved 'a | Rejected error | Pending | Uncaught

definition readCsvHeaders :: "world \<Rightarrow> string \<Rightarrow> string list promise" where
  "readCsvHeaders w filePath =
     (case files w filePath of
        Some (Plain text) \<Rightarrow>
          (case csv_parse True text of (parsed, err) \<Rightarrow>
             (case records_of parsed of
                first # _ \<Rightarrow> Resolved (Object_keys first)
              | [] \<Rightarrow> (case err of Some pe \<Rightarrow> Rejected (ParseError pe) | None \<Rightarrow> Pending)))
      | _ \<Rightarrow> Uncaught)"

text \<open>
  \<open>COPY t (columns) FROM STDIN WITH DELIMITER ',' CSV HEADER\<close>, as the server reads its
  input. A quote opens a quoted part anywhere in a field; inside it two quotes are one
  quote, one quote closes it, and commas and line feeds are text. An empty field with no
  quote is NULL. The input must not end inside a quoted part. (The end-of-data line,
  a backslash and a full stop, and carriage returns are not modelled.)
\<close>

record cstate =
  c_field :: string
  c_saw_quote :: bool
  c_in_quote :: bool
  c_fields :: "string option list"
  c_lines :: "string option list list"

definition end_field :: "cstate \<Rightarrow> cstate" where
  "end_field c =
     c\<lparr>c_fields := c_fields c @ [if c_field c = [] \<and> \<not> c_saw_quote c then None else Some (c_field c)],
       c_field := [], c_saw_quote := False\<rparr>"

definition end_line :: "cstate \<Rightarrow> cstate" where
  "end_line c = c\<lparr>c_lines := c_lines c @ [c_fields c], c_fields := []\<rparr>"

fun copy_chars :: "string \<Rightarrow> cstate \<Rightarrow> cstate \<times> bool" where
  "copy_chars [] c =
     (if c_in_quote c then (c, False)
      else if c_saw_quote c \<or> c_fields c \<noteq> [] \<or> c_field c \<noteq> [] then (end_line (end_field c), True)
      else (c, True))"
| "copy_chars (x # xs) c =
     (if c_in_quote c then
        (if x = dquote \<and> xs \<noteq> [] \<and> hd xs = dquote
           then copy_chars (tl xs) (c\<lparr>c_field := c_field c @ [dquote]\<rparr>)
         else if x = dquote then copy_chars xs (c\<lparr>c_in_quote := False\<rparr>)
         else copy_chars xs (c\<lparr>c_field := c_field c @ [x]\<rparr>))
      else if x = dquote then copy_chars xs (c\<lparr>c_in_quote := True, c_saw_quote := True\<rparr>)
      else if x = newline then copy_chars xs (end_line (end_field c))
      else if x = comma then copy_chars xs (end_field c)
      else copy_chars xs (c\<lparr>c_field := c_field c @ [x]\<rparr>))"

text \<open>The lines of the input as lists of fields, and whether all of it could be read.\<close>

definition copy_lines :: "string \<Rightarrow> string option list list \<times> bool" where
  "copy_lines text =
     (case copy_chars text
             \<lparr>c_field = [], c_saw_quote = False, c_in_quote = False, c_fields = [], c_lines = []\<rparr> of
        (c, ok) \<Rightarrow> (c_lines c, ok))"

text \<open>
  The server skips the header line, folds the unquoted column names of the statement to
  lower case, and fails at the first record whose number of fields is not the number of
  columns or that it rejects. The rows before that record are in the transaction's
  working copy when it fails.
\<close>

definition copy_row :: "string list \<Rightarrow> string option list \<Rightarrow> row" where
  "copy_row columns record =
     zip (map toLowerCase columns) (map (\<lambda>f. case f of None \<Rightarrow> VNull | Some s \<Rightarrow> VStr s) record)"

fun copy_rows ::
  "env \<Rightarrow> string list \<Rightarrow> string option list list \<Rightarrow> row list \<Rightarrow> row list \<times> error option" where
  "copy_rows e columns [] t = (t, None)"
| "copy_rows e columns (r # rs) t =
     (if length r \<noteq> length columns \<or> row_rejected e (copy_row columns r) then (t, Some CopyFailed)
      else copy_rows e columns rs (t @ [copy_row columns r]))"

definition copy_from :: "env \<Rightarrow> string list \<Rightarrow> string \<Rightarrow> row list \<Rightarrow> row list \<times> error option" where
  "copy_from e columns text t =
     (case copy_lines text of (lines, ok) \<Rightarrow>
        (case copy_rows e columns (tl lines) t of
           (t', Some err) \<Rightarrow> (t', Some err)
         | (t', None) \<Rightarrow> (t', if ok then None else Some CopyFailed)))"

text \<open>
  restoreCsvToTable. When the process dies the connection is lost, and the server drops
  the transaction that was open on it.
\<close>

definition restoreCsvToTable :: "env \<Rightarrow> string \<Rightarrow> world \<Rightarrow> outcome \<times> world" where
  "restoreCsvToTable e csvFilePath w =
     (let w1 = BEGIN (sent Connect w)
      in case readCsvHeaders w1 csvFilePath of
           Pending \<Rightarrow> (Hangs, w1)
         | Uncaught \<Rightarrow> (Dies, w1\<lparr>txn := None\<rparr>)
         | Rejected err \<Rightarrow> (Failed err, sent Release (caught err (ROLLBACK w1)))
         | Resolved headers \<Rightarrow>
             (case files w1 csvFilePath of
                Some (Plain text) \<Rightarrow>
                  (case copy_from e headers text (visible w1) of
                     (t', Some err) \<Rightarrow>
                       (Failed err,
                        sent Release (caught err (ROLLBACK (sent CopyFrom (store t' w1)))))
                   | (t', None) \<Rightarrow>
                       (Done, sent Release (COMMIT (sent CopyFrom (store t' w1)))))
              | _ \<Rightarrow> (Dies, w1\<lparr>txn := None\<rparr>)))"

definition unlink_if_exists :: "string \<Rightarrow> world \<Rightarrow> world" where
  "unlink_if_exists path w =
     (if files w path \<noteq> None then w\<lparr>files := (files w)(path := None)\<rparr> else w)"

definition cleanup :: "world \<Rightarrow> world" where
  "cleanup w =
     unlink_if_exists (BACKUP_PATH @ ''/processed-temp-file.csv'')
       (unlink_if_exists (BACKUP_PATH @ ''/temp-file.csv'') w)"

text \<open>
  The \<open>catch\<close> block prints the error and throws nothing; the \<open>finally\<close> block
  removes the two local files. The function returns unless the load hangs or the process
  dies.
\<close>

definition downloadAndRestoreS3File :: "env \<Rightarrow> string \<Rightarrow> world \<Rightarrow> outcome \<times> world" where
  "downloadAndRestoreS3File e key w =
     (let localFilePath = BACKUP_PATH @ ''/temp-file.csv'';
          processedFilePath = BACKUP_PATH @ ''/processed-temp-file.csv''
      in case bucket w key of
           None \<Rightarrow> (Done, cleanup (caught (NoSuchKey key) w))
         | Some (Plain _) \<Rightarrow> (Done, cleanup (caught NotGzip w))
         | Some (Gzipped decompressed) \<Rightarrow>
             (let w1 = w\<lparr>files := (files w)(localFilePath \<mapsto> Plain decompressed)\<rparr>
              in case preprocessCsvFile localFilePath processedFilePath w1 of
                   (Failed err, w2) \<Rightarrow> (Done, cleanup (caught err w2))
                 | (Hangs, w2) \<Rightarrow> (Hangs, w2)
                 | (Dies, w2) \<Rightarrow> (Dies, w2)
                 | (Done, w2) \<Rightarrow>
                     (case restoreCsvToTable e processedFilePath w2 of
                        (Hangs, w3) \<Rightarrow> (Hangs, w3)
                      | (Dies, w3) \<Rightarrow> (Dies, w3)
                      | (Failed err, w3) \<Rightarrow> (Done, cleanup (caught err w3))
                      | (Done, w3) \<Rightarrow> (Done, cleanup w3))))"

definition restore_s3Key :: "env \<Rightarrow> string \<Rightarrow> nat \<Rightarrow> string" where
  "restore_s3Key e yearMonth batchNo =
     ''db_backup/'' @ tableName e @ ''/'' @ yearMonth @ ''/backup_'' @ yearMonth
       @ ''_batch'' @ nat_digits batchNo @ ''.csv.gz''"

text \<open>
  The script: its exit code when it ends. Nothing is thrown out of
  downloadAndRestoreS3File, so the process ends with code 0 whenever the function
  returns.
\<close>

definition restore_script :: "env \<Rightarrow> string \<Rightarrow> nat \<Rightarrow> world \<Rightarrow> nat option \<times> world" where
  "restore_script e yearMonth batchNo w =
     (case downloadAndRestoreS3File e (restore_s3Key e yearMonth batchNo) w of
        (Hangs, w') \<Rightarrow> (None, w')
      | (Dies, w') \<Rightarrow> (Some 1, w')
      | (_, w') \<Rightarrow> (Some 0, w'))"

section \<open>Example data\<close>

definition row_a :: row where
  "row_a = [(''id'', VNum 1), (''name'', VStr ''ann''), (''created_at'', VDate (2022, 3, 5, 0))]"

definition row_b :: row where
  "row_b = [(''id'', VNum 2), (''name'', VStr ''bob''), (''created_at'', VDate (2022, 3, 2, 0))]"

definition row_c :: row where
  "row_c = [(''id'', VNum 3), (''name'', VStr ''cy''), (''created_at'', VDate (2022, 4, 1, 0))]"

definition row_d :: row where
  "row_d = [(''id'', VNum 2), (''name'', VStr ''dee''), (''created_at'', VDate (2022, 4, 9, 0))]"

definition row_n :: row where
  "row_n = [(''id'', VNull), (''name'', VStr ''nil''), (''created_at'', VDate (2022, 3, 7, 0))]"

definition env0 :: env where
  "env0 = \<lparr>tableName = ''events'', BATCH_SIZE = 1,
           table_columns = [''id'', ''name'', ''created_at''],
           moment_format = (\<lambda>t. ''2022-03-05T00:00:00.000Z''),
           JSON_stringify = (\<lambda>j. ''{}''), west_of_UTC = False,
           put_fails = (\<lambda>k. False), row_rejected = (\<lambda>r. False)\<rparr>"

definition world0 :: world where
  "world0 = \<lparr>db_table = [row_a, row_b, row_c], txn = None, bucket = Map.empty, files = Map.empty,
             db_log = [], console_error = []\<rparr>"

definition env_down :: env where
  "env_down = env0\<lparr>put_fails := (\<lambda>k. True)\<rparr>"

definition env_nocols :: env where
  "env_nocols = env0\<lparr>tableName := ''public.events'', table_columns := []\<rparr>"

definition env_west :: env where
  "env_west = env0\<lparr>west_of_UTC := True\<rparr>"

definition heap0 :: heap where
  "heap0 = [[(''id'', VNum 7), (''at'', VDate (2022, 3, 5, 0)), (''doc'', VObj (JObj []))]]"

definition hs2 :: "header list" where
  "hs2 = [(''id'', ''ID''), (''name'', ''NAME'')]"

definition row_comma :: row where
  "row_comma = [(''id'', VNum 1), (''name'', VStr ''a,b'')]"

definition env_reject :: env where
  "env_reject = env0\<lparr>row_rejected := (\<lambda>r. True)\<rparr>"


definition archive_bad :: string where
  \<open>archive_bad = ''"ID"\<newline>"1"\<newline>"2''\<close>

definition archive_short :: string where
  \<open>archive_short = ''"ID","NAME"\<newline>"9","y"\<newline>"8"\<newline>"7","z","w"\<newline>''\<close>

definition archive_short_first :: string where
  \<open>archive_short_first = ''"ID","NAME"\<newline>"8"\<newline>"9","y"\<newline>''\<close>

definition world_local :: "string \<Rightarrow> world" where
  "world_local text =
     \<lparr>db_table = [row_c], txn = None, bucket = Map.empty,
      files = [BACKUP_PATH @ ''/temp-file.csv'' \<mapsto> Plain text], db_log = [], console_error = []\<rparr>"

definition world_restore :: "string \<Rightarrow> world" where
  "world_restore text =
     \<lparr>db_table = [row_c], txn = None,
      bucket = [restore_s3Key env0 ''2022-03'' 1 \<mapsto> Gzipped text],
      files = Map.empty, db_log = [], console_error = []\<rparr>"


section \<open>Properties of the batch statement\<close>

lemma cte_rows_subset: "set (cte_rows tbl lo hi n) \<subseteq> set (filter (in_window lo hi) tbl)"
proof -
  have "set (take n (sort_key created_key (filter (in_window lo hi) tbl)))
          \<subseteq> set (sort_key created_key (filter (in_window lo hi) tbl))"
    by (rule set_take_subset)
  then show ?thesis by (simp add: cte_rows_def)
qed

lemma primary_key_distinct: "primary_key tbl \<Longrightarrow> distinct tbl"
  by (simp add: primary_key_def distinct_map)

lemma primary_key_inj: "primary_key tbl \<Longrightarrow> inj_on (column ''id'') (set tbl)"
  by (simp add: primary_key_def distinct_map)

lemma cte_rows_distinct:
  assumes "primary_key tbl"
  shows "distinct (cte_rows tbl lo hi n)"
proof -
  have "distinct (filter (in_window lo hi) tbl)"
    using assms by (simp add: primary_key_distinct)
  then have "distinct (sort_key created_key (filter (in_window lo hi) tbl))"
    by simp
  then show ?thesis by (simp add: cte_rows_def)
qed

lemma sql_in_iff:
  assumes pk: "primary_key tbl" and r: "r \<in> set tbl"
  shows "sql_in (column ''id'' r) (cte tbl lo hi n) \<longleftrightarrow> r \<in> set (cte_rows tbl lo hi n)"
proof
  assume "sql_in (column ''id'' r) (cte tbl lo hi n)"
  then obtain s where s: "s \<in> set (cte_rows tbl lo hi n)" and eq: "column ''id'' r = column ''id'' s"
    by (auto simp: sql_in_def cte_def)
  from s cte_rows_subset have "s \<in> set tbl" by fastforce
  with primary_key_inj [OF pk] r eq have "r = s" by (auto dest: inj_onD)
  with s show "r \<in> set (cte_rows tbl lo hi n)" by simp
next
  assume "r \<in> set (cte_rows tbl lo hi n)"
  moreover from pk r have "column ''id'' r \<noteq> VNull"
    by (force simp: primary_key_def)
  ultimately show "sql_in (column ''id'' r) (cte tbl lo hi n)"
    by (auto simp: sql_in_def cte_def)
qed

lemma returned_eq:
  assumes pk: "primary_key tbl"
  shows "fst (delete_returning tbl lo hi n) = filter (\<lambda>r. r \<in> set (cte_rows tbl lo hi n)) tbl"
proof -
  have "filter (\<lambda>r. sql_in (column ''id'' r) (cte tbl lo hi n)) tbl
          = filter (\<lambda>r. r \<in> set (cte_rows tbl lo hi n)) tbl"
    by (rule filter_cong [OF refl]) (simp add: sql_in_iff [OF pk])
  then show ?thesis by (simp add: delete_returning_def Let_def)
qed

lemma remaining_eq:
  assumes pk: "primary_key tbl"
  shows "snd (delete_returning tbl lo hi n) = filter (\<lambda>r. r \<notin> set (cte_rows tbl lo hi n)) tbl"
proof -
  have "filter (\<lambda>r. \<not> sql_in (column ''id'' r) (cte tbl lo hi n)) tbl
          = filter (\<lambda>r. r \<notin> set (cte_rows tbl lo hi n)) tbl"
    by (rule filter_cong [OF refl]) (simp add: sql_in_iff [OF pk])
  then show ?thesis by (simp add: delete_returning_def Let_def)
qed

lemma returned_mset:
  assumes pk: "primary_key tbl"
  shows "mset (fst (delete_returning tbl lo hi n)) = mset (cte_rows tbl lo hi n)"
proof -
  let ?S = "cte_rows tbl lo hi n"
  let ?R = "filter (\<lambda>r. r \<in> set ?S) tbl"
  have sub: "set ?S \<subseteq> set tbl" using cte_rows_subset [of tbl lo hi n] by auto
  have "distinct ?R" using pk by (simp add: primary_key_distinct)
  moreover have "distinct ?S" using pk by (rule cte_rows_distinct)
  moreover have "set ?R = set ?S" using sub by auto
  ultimately have "mset ?R = mset ?S"
    using set_eq_iff_mset_eq_distinct [of ?R ?S] by blast
  then show ?thesis by (simp add: returned_eq [OF pk])
qed

lemma sorted_take_le_drop:
  assumes "sorted (map k xs)" and "x \<in> set (take n xs)" and "y \<in> set (drop n xs)"
  shows "k x \<le> k y"
proof -
  have "sorted (map k (take n xs) @ map k (drop n xs))"
    using assms(1) by (simp flip: map_append)
  then show ?thesis using assms(2,3) by (auto simp: sorted_append)
qed

text \<open>
  Claim C1 (select-delete atomicity), as the code has it. The statement finds the rows
  to delete by their \<open>id\<close>, so what it deletes is what it selected only when \<open>id\<close>
  identifies a row. On a table whose \<open>id\<close> is a primary key, one
  execution of the batch statement with limit \<open>n\<close> returns rows \<open>R\<close> and leaves the
  table \<open>tbl'\<close> such that: \<open>R\<close> has \<open>n\<close> rows, or all rows of the window when there
  are fewer; every row of \<open>R\<close> lies in the window \<open>[lo, hi)\<close>; no window row left behind
  is older than a row of \<open>R\<close> (the rows are chosen in ascending \<open>created_at\<close>); the old
  table is exactly \<open>R\<close> plus \<open>tbl'\<close> (what is returned is what is deleted); no id of
  \<open>R\<close> occurs in \<open>tbl'\<close>; and the window's row count drops by exactly the length of \<open>R\<close>.
\<close>

theorem select_delete_atomicity:
  assumes pk: "primary_key tbl"
    and res: "delete_returning tbl lo hi n = (R, tbl')"
  shows "length R = min n (window_count lo hi tbl)
       \<and> (\<forall>r\<in>set R. in_window lo hi r)
       \<and> (\<forall>r\<in>set R. \<forall>r'\<in>set tbl'. in_window lo hi r' \<longrightarrow> created_key r \<le> created_key r')
       \<and> mset tbl = mset R + mset tbl'
       \<and> (\<forall>r\<in>set R. column ''id'' r \<notin> set (map (column ''id'') tbl'))
       \<and> window_count lo hi tbl' = window_count lo hi tbl - length R"
proof -
  let ?W = "filter (in_window lo hi) tbl"
  let ?S = "cte_rows tbl lo hi n"
  have R: "R = filter (\<lambda>r. r \<in> set ?S) tbl"
    using returned_eq [OF pk, of lo hi n] res by simp
  have T: "tbl' = filter (\<lambda>r. r \<notin> set ?S) tbl"
    using remaining_eq [OF pk, of lo hi n] res by simp
  have mR: "mset R = mset ?S"
    using returned_mset [OF pk, of lo hi n] res by simp
  have setR: "set R = set ?S"
    using mR by (rule mset_eq_setD)
  have lenR: "length R = length ?S"
    using mR by (rule mset_eq_length)
  have c1: "length R = min n (window_count lo hi tbl)"
    by (simp add: lenR cte_rows_def window_count_def min.commute)
  have c2: "\<forall>r\<in>set R. in_window lo hi r"
    using cte_rows_subset [of tbl lo hi n] setR by auto
  have c3: "\<forall>r\<in>set R. \<forall>r'\<in>set tbl'. in_window lo hi r' \<longrightarrow> created_key r \<le> created_key r'"
  proof (intro ballI impI)
    fix r r' assume r: "r \<in> set R" and r': "r' \<in> set tbl'" and w: "in_window lo hi r'"
    let ?xs = "sort_key created_key ?W"
    have "r' \<in> set ?xs" using r' w T by simp
    then have "r' \<in> set (take n ?xs) \<union> set (drop n ?xs)"
      by (simp flip: set_append)
    moreover have "r' \<notin> set (take n ?xs)" using r' T by (simp add: cte_rows_def)
    ultimately have d: "r' \<in> set (drop n ?xs)" by simp
    have t: "r \<in> set (take n ?xs)" using r setR by (simp add: cte_rows_def)
    have "sorted (map created_key ?xs)" by (rule sorted_sort_key)
    then show "created_key r \<le> created_key r'"
      using t d by (rule sorted_take_le_drop)
  qed
  have c4: "mset tbl = mset R + mset tbl'"
    unfolding R T by (simp add: multiset_partition [symmetric])
  have c5: "\<forall>r\<in>set R. column ''id'' r \<notin> set (map (column ''id'') tbl')"
  proof
    fix r assume r: "r \<in> set R"
    show "column ''id'' r \<notin> set (map (column ''id'') tbl')"
    proof
      assume "column ''id'' r \<in> set (map (column ''id'') tbl')"
      then obtain r' where r': "r' \<in> set tbl'" and eq: "column ''id'' r = column ''id'' r'"
        by auto
      have "r \<in> set tbl" "r' \<in> set tbl" using r r' R T by auto
      with primary_key_inj [OF pk] eq have "r = r'" by (auto dest: inj_onD)
      then show False using r r' R T by auto
    qed
  qed
  have "filter_mset (in_window lo hi) (mset tbl)
          = filter_mset (in_window lo hi) (mset R) + filter_mset (in_window lo hi) (mset tbl')"
    by (simp add: c4)
  moreover have "filter_mset (in_window lo hi) (mset R) = mset R"
    using c2 by (simp add: filter_mset_eq_conv)
  ultimately have "size (filter_mset (in_window lo hi) (mset tbl))
          = size (mset R) + size (filter_mset (in_window lo hi) (mset tbl'))"
    by simp
  then have c6: "window_count lo hi tbl' = window_count lo hi tbl - length R"
    by (simp add: window_count_def flip: mset_filter)
  from c1 c2 c3 c4 c5 c6 show ?thesis by blast
qed

theorem select_delete_atomicity_witness:
  "primary_key [row_a, row_b, row_c]
   \<and> delete_returning [row_a, row_b, row_c] (2022, 3, 1, 0) (2022, 4, 1, 0) 1 = ([row_b], [row_a, row_c])
   \<and> length [row_b] = min 1 (window_count (2022, 3, 1, 0) (2022, 4, 1, 0) [row_a, row_b, row_c])
   \<and> mset [row_a, row_b, row_c] = mset [row_b] + mset [row_a, row_c]
   \<and> window_count (2022, 3, 1, 0) (2022, 4, 1, 0) [row_a, row_c]
       = window_count (2022, 3, 1, 0) (2022, 4, 1, 0) [row_a, row_b, row_c] - length [row_b]"
proof -
  have pk: "primary_key [row_a, row_b, row_c]"
    by code_simp
  have res: "delete_returning [row_a, row_b, row_c] (2022, 3, 1, 0) (2022, 4, 1, 0) 1
               = ([row_b], [row_a, row_c])"
    by code_simp
  from select_delete_atomicity [OF pk res] pk res show ?thesis by blast
qed


text \<open>
  Without a key the statement deletes other rows than it selected. Two rows have the
  same \<open>id\<close>, one created in March and one in April: the March batch with limit 1
  selects the March row, deletes both and returns both, so it returns more rows than the
  limit, one of them from outside the window, and the window's count drops by one, not by
  the number of rows returned.
\<close>

theorem repeated_id_deletes_outside_window:
  "delete_returning [row_b, row_d] (2022, 3, 1, 0) (2022, 4, 1, 0) 1 = ([row_b, row_d], [])
   \<and> column ''id'' row_b = column ''id'' row_d
   \<and> in_window (2022, 3, 1, 0) (2022, 4, 1, 0) row_b
   \<and> \<not> in_window (2022, 3, 1, 0) (2022, 4, 1, 0) row_d
   \<and> window_count (2022, 3, 1, 0) (2022, 4, 1, 0) [row_b, row_d] = 1
   \<and> window_count (2022, 3, 1, 0) (2022, 4, 1, 0) [] = 0"
  by (simp add: delete_returning_def cte_def cte_rows_def in_window_def sql_in_def column_def
      created_key_def window_count_def row_b_def row_d_def)

text \<open>
  A row with a NULL \<open>id\<close> is selected and not deleted: the statement returns no row
  while the window still holds one, and processMonth takes the month for finished.
\<close>

lemma null_id_deletes_nothing:
  "delete_returning [row_n] (2022, 3, 1, 0) (2022, 4, 1, 0) 1 = ([], [row_n])
   \<and> window_count (2022, 3, 1, 0) (2022, 4, 1, 0) [row_n] = 1"
  by (simp add: delete_returning_def cte_def cte_rows_def in_window_def sql_in_def column_def
      created_key_def window_count_def row_n_def)
section \<open>Properties of the archive writer and of one pass of the loop\<close>

lemmas csv_writer_defs =
  writeRecords_def headerString_def getHeaderString_def getHeaderRecord_def isObjectHeader_def
  stringifyRecords_def getRecordAsArray_def joinRecords_def getCsvLine_def
  stringify_def isEmpty_def quoteField_def js_String_def replace_quotes_def int_toString_def
  digit_def column_def serializeRow_def serialize_value_def

lemma split_length: "length (split c s) = Suc (length (filter (\<lambda>x. x = c) s))"
  by (induction s) (auto split: list.splits)

lemma writeRecords_newline: "newline \<in> set (writeRecords hs rs)"
  by (simp add: writeRecords_def stringifyRecords_def joinRecords_def)

lemma writeRecords_passes_gate:
  "writeRecords hs rs \<noteq> [] \<and> \<not> length (split newline (writeRecords hs rs)) < 2"
proof -
  have n: "newline \<in> set (writeRecords hs rs)" by (rule writeRecords_newline)
  then have "filter (\<lambda>x. x = newline) (writeRecords hs rs) \<noteq> []"
    by (simp add: filter_empty_conv)
  then have "0 < length (filter (\<lambda>x. x = newline) (writeRecords hs rs))" by simp
  then have "\<not> length (split newline (writeRecords hs rs)) < 2"
    by (simp add: split_length)
  moreover from n have "writeRecords hs rs \<noteq> []" by auto
  ultimately show ?thesis by simp
qed

lemma writeToCompressedFile_result:
  "writeToCompressedFile e rows y m b hs w =
     (Inr (csvPath e y m b @ ''.gz''),
      w\<lparr>files := (files w)(csvPath e y m b @ ''.gz'' \<mapsto>
                      Gzipped (writeRecords hs (map (serializeRow e) rows)),
                    csvPath e y m b := None)\<rparr>)"
  using writeRecords_passes_gate [of hs "map (serializeRow e) rows"]
  by (simp add: writeToCompressedFile_def Let_def fun_upd_twist)

lemma sent_fields [simp]:
  "db_table (sent c w) = db_table w" "txn (sent c w) = txn w" "bucket (sent c w) = bucket w"
  "files (sent c w) = files w" "db_log (sent c w) = db_log w @ [c]"
  "console_error (sent c w) = console_error w" "visible (sent c w) = visible w"
  by (simp_all add: sent_def visible_def split: option.splits)

lemma caught_fields [simp]:
  "db_table (caught x w) = db_table w" "txn (caught x w) = txn w" "bucket (caught x w) = bucket w"
  "files (caught x w) = files w" "db_log (caught x w) = db_log w"
  "console_error (caught x w) = console_error w @ [x]" "visible (caught x w) = visible w"
  by (simp_all add: caught_def visible_def split: option.splits)

lemma BEGIN_fields [simp]:
  "db_table (BEGIN w) = db_table w" "txn (BEGIN w) = Some (visible w)" "bucket (BEGIN w) = bucket w"
  "files (BEGIN w) = files w" "db_log (BEGIN w) = db_log w @ [Begin]"
  "console_error (BEGIN w) = console_error w" "visible (BEGIN w) = visible w"
  by (simp_all add: BEGIN_def visible_def sent_def split: option.splits)

lemma COMMIT_fields [simp]:
  "db_table (COMMIT w) = visible w" "txn (COMMIT w) = None" "bucket (COMMIT w) = bucket w"
  "files (COMMIT w) = files w" "db_log (COMMIT w) = db_log w @ [Commit]"
  "console_error (COMMIT w) = console_error w" "visible (COMMIT w) = visible w"
  by (simp_all add: COMMIT_def visible_def sent_def split: option.splits)

lemma ROLLBACK_fields [simp]:
  "db_table (ROLLBACK w) = db_table w" "txn (ROLLBACK w) = None" "bucket (ROLLBACK w) = bucket w"
  "files (ROLLBACK w) = files w" "db_log (ROLLBACK w) = db_log w @ [Rollback]"
  "console_error (ROLLBACK w) = console_error w" "visible (ROLLBACK w) = db_table w"
  by (simp_all add: ROLLBACK_def visible_def sent_def split: option.splits)

lemma store_fields [simp]:
  "bucket (store t w) = bucket w" "files (store t w) = files w" "db_log (store t w) = db_log w"
  "console_error (store t w) = console_error w" "visible (store t w) = t"
  "txn w = Some x \<Longrightarrow> txn (store t w) = Some t"
  "txn w = Some x \<Longrightarrow> db_table (store t w) = db_table w"
  by (simp_all add: store_def visible_def split: option.splits)

lemma visible_files_update [simp]: "visible (w\<lparr>files := f\<rparr>) = visible w"
  by (simp add: visible_def split: option.splits)

lemma visible_bucket_update [simp]: "visible (w\<lparr>bucket := f\<rparr>) = visible w"
  by (simp add: visible_def split: option.splits)

lemma processMonth_body_fields:
  fixes hs :: "header list" and b :: nat
  assumes d: "delete_returning (visible w) (monthStart_of y m) (nextMonthStart_of y m) (BATCH_SIZE e)
                = (rows, rest)"
  defines "r \<equiv> processMonth_body e y m hs b w"
  defines "gz \<equiv> Gzipped (writeRecords hs (map (serializeRow e) rows))"
  shows "fst r = (if rows = [] then Break
                  else if put_fails e (s3Key_of e y m b) then Threw (UploadFailed (s3Key_of e y m b))
                  else Continue (length rows))"
    and "db_table (snd r) = (if rows = [] \<or> put_fails e (s3Key_of e y m b) then db_table w else rest)"
    and "txn (snd r) = (if rows = [] then Some rest else None)"
    and "bucket (snd r) = (if rows = [] \<or> put_fails e (s3Key_of e y m b) then bucket w
                           else (bucket w)(s3Key_of e y m b \<mapsto> gz))"
    and "files (snd r) = (if rows = [] then files w
                          else (files w)(csvPath e y m b @ ''.gz'' \<mapsto> gz, csvPath e y m b := None))"
    and "db_log (snd r) = db_log w @ [Connect, Begin, DeleteReturning (length rows)]
           @ (if rows = [] then [] else if put_fails e (s3Key_of e y m b) then [Rollback] else [Commit])
           @ [Release]"
    and "console_error (snd r) = console_error w
           @ (if rows \<noteq> [] \<and> put_fails e (s3Key_of e y m b)
              then [UploadFailed (s3Key_of e y m b), UploadFailed (s3Key_of e y m b)] else [])"
  unfolding r_def gz_def
  by (simp_all add: processMonth_body_def Let_def d writeToCompressedFile_result uploadToS3_def)


lemma world0_march_batch:
  "delete_returning [row_a, row_b, row_c] (monthStart_of 2022 3) (nextMonthStart_of 2022 3) (Suc 0)
     = ([row_b], [row_a, row_c])"
  by (simp add: delete_returning_def cte_def cte_rows_def in_window_def sql_in_def column_def
      created_key_def monthStart_of_def nextMonthStart_of_def row_a_def row_b_def row_c_def)

lemma world0_may_batch:
  "delete_returning [row_a, row_b, row_c] (monthStart_of 2022 5) (nextMonthStart_of 2022 5) (Suc 0)
     = ([], [row_a, row_b, row_c])"
  by (simp add: delete_returning_def cte_def cte_rows_def in_window_def sql_in_def column_def
      created_key_def monthStart_of_def nextMonthStart_of_def row_a_def row_b_def row_c_def)

lemma world0_fields [simp]:
  "db_table world0 = [row_a, row_b, row_c]" "txn world0 = None" "visible world0 = [row_a, row_b, row_c]"
  "db_log world0 = []" "console_error world0 = []"
  by (simp_all add: world0_def visible_def)

lemma env0_fields [simp]:
  "BATCH_SIZE env0 = 1" "put_fails env0 k = False" "BATCH_SIZE env_down = 1" "put_fails env_down k = True"
  by (simp_all add: env0_def env_down_def)

text \<open>
  Claim C3, as the code has it. The batch's \<open>DELETE\<close> runs inside the transaction that
  is committed only after the upload: when the upload of a batch that selected rows fails,
  the pass throws the upload's error, the transaction is rolled back (none is left open),
  the table is what it was before the pass, and the bucket is unchanged.
\<close>

theorem upload_failure_rolls_back:
  assumes "put_fails e (s3Key_of e year month batchNumber)"
    and "fst (delete_returning (visible w) (monthStart_of year month)
                (nextMonthStart_of year month) (BATCH_SIZE e)) \<noteq> []"
  shows "fst (processMonth_body e year month headers batchNumber w)
           = Threw (UploadFailed (s3Key_of e year month batchNumber))
       \<and> db_table (snd (processMonth_body e year month headers batchNumber w)) = db_table w
       \<and> txn (snd (processMonth_body e year month headers batchNumber w)) = None
       \<and> bucket (snd (processMonth_body e year month headers batchNumber w)) = bucket w"
proof -
  obtain rows rest where
    d: "delete_returning (visible w) (monthStart_of year month) (nextMonthStart_of year month)
          (BATCH_SIZE e) = (rows, rest)"
    by force
  with assms(2) have ne: "rows \<noteq> []" by simp
  show ?thesis
    using assms(1) ne by (simp add: processMonth_body_fields [OF d])
qed

theorem upload_failure_rolls_back_witness:
  "put_fails env_down (s3Key_of env_down 2022 3 1)
   \<and> fst (processMonth_body env_down 2022 3 [] 1 world0)
        = Threw (UploadFailed (s3Key_of env_down 2022 3 1))
   \<and> db_table (snd (processMonth_body env_down 2022 3 [] 1 world0)) = db_table world0
   \<and> txn (snd (processMonth_body env_down 2022 3 [] 1 world0)) = None"
proof -
  have h1: "put_fails env_down (s3Key_of env_down 2022 3 1)" by simp
  have h2: "fst (delete_returning (visible world0) (monthStart_of 2022 3)
                  (nextMonthStart_of 2022 3) (BATCH_SIZE env_down)) \<noteq> []"
    by (simp add: world0_march_batch)
  from upload_failure_rolls_back [OF h1 h2, of "[]"] h1 show ?thesis by simp
qed

text \<open>
  With the object storage down, the first March batch of the example table selects
  \<open>row_b\<close>, the upload fails after the delete, and the table still holds \<open>row_b\<close>:
  the deleted rows are not lost.
\<close>

theorem upload_failure_keeps_rows:
  "fst (processMonth_body env_down 2022 3 (fetchTableHeaders env_down) 1 world0)
     = Threw (UploadFailed (s3Key_of env_down 2022 3 1))
   \<and> fst (delete_returning (db_table world0) (monthStart_of 2022 3) (nextMonthStart_of 2022 3) 1)
       = [row_b]
   \<and> db_table (snd (processMonth_body env_down 2022 3 (fetchTableHeaders env_down) 1 world0))
       = [row_a, row_b, row_c]"
proof -
  have d: "delete_returning (visible world0) (monthStart_of 2022 3) (nextMonthStart_of 2022 3)
             (BATCH_SIZE env_down) = ([row_b], [row_a, row_c])"
    by (simp add: world0_march_batch)
  show ?thesis
    by (simp add: processMonth_body_fields [OF d] world0_march_batch)
qed

lemma processMonth_loop_open:
  "processMonth_loop e year month headers batchNumber totalDeleted w = (Inr n, w')
   \<Longrightarrow> txn w' \<noteq> None \<and> (\<exists>l. db_log w' = l @ [Begin, DeleteReturning 0, Release])"
proof (induction e year month headers batchNumber totalDeleted w rule: processMonth_loop.induct)
  case (1 e year month headers batchNumber totalDeleted w)
  obtain rows rest where
    d: "delete_returning (visible w) (monthStart_of year month) (nextMonthStart_of year month)
          (BATCH_SIZE e) = (rows, rest)"
    by force
  note f = processMonth_body_fields [OF d, of headers batchNumber]
  obtain s w1 where b: "processMonth_body e year month headers batchNumber w = (s, w1)"
    by force
  show ?case
  proof (cases s)
    case Break
    with b f(1) have "rows = []" by (auto split: if_splits)
    moreover from "1.prems" b Break have "w' = w1" by simp
    ultimately show ?thesis using f(3) f(6) b by simp
  next
    case (Continue k)
    with "1.prems" b have
      "processMonth_loop e year month headers (batchNumber + 1) (totalDeleted + k) w1 = (Inr n, w')"
      by simp
    with "1.IH" [OF b [symmetric] Continue] show ?thesis by simp
  next
    case (Threw err)
    with "1.prems" b show ?thesis by simp
  qed
qed

text \<open>
  Claim C5, on the code. Whenever processMonth returns normally, the last pass of its loop
  has left through \<open>break\<close>: the commands sent end with \<open>BEGIN\<close>, the batch
  statement returning no row, and the release of the connection, with no \<open>COMMIT\<close> and
  no \<open>ROLLBACK\<close> between them, and the connection's transaction is still open.
\<close>

theorem processMonth_leaves_transaction_open:
  assumes "fst (processMonth e year month w) = Inr n"
  shows "txn (snd (processMonth e year month w)) \<noteq> None
       \<and> (\<exists>l. db_log (snd (processMonth e year month w)) = l @ [Begin, DeleteReturning 0, Release])"
proof -
  obtain w' where "processMonth e year month w = (Inr n, w')"
    using assms by (cases "processMonth e year month w") simp
  then show ?thesis
    using processMonth_loop_open [of e year month "fetchTableHeaders e" 1 0 _ n w']
    by (simp add: processMonth_def)
qed

theorem processMonth_leaves_transaction_open_witness:
  "fst (processMonth env0 2022 5 world0) = Inr 0
   \<and> txn (snd (processMonth env0 2022 5 world0)) = Some [row_a, row_b, row_c]
   \<and> db_log (snd (processMonth env0 2022 5 world0))
       = [Connect, SelectColumns, Release, Connect, Begin, DeleteReturning 0, Release]"
proof -
  let ?w = "sent Release (sent SelectColumns (sent Connect world0))"
  have d: "delete_returning (visible ?w) (monthStart_of 2022 5) (nextMonthStart_of 2022 5)
             (BATCH_SIZE env0) = ([], [row_a, row_b, row_c])"
    by (simp add: world0_may_batch)
  note f = processMonth_body_fields [OF d, of "fetchTableHeaders env0" 1]
  obtain s w1 where b: "processMonth_body env0 2022 5 (fetchTableHeaders env0) 1 ?w = (s, w1)"
    by force
  from f(1) b have s: "s = Break" by simp
  have r: "processMonth env0 2022 5 world0 = (Inr 0, w1)"
    using b by (simp add: processMonth_def s)
  have "fst (processMonth env0 2022 5 world0) = Inr 0" by (simp add: r)
  from processMonth_leaves_transaction_open [OF this] r f(3) f(6) b show ?thesis by simp
qed

text \<open>
  Claim C9, as the code has it. After a pass of the loop that wrote an archive (it went on
  or it threw), the uncompressed CSV file is gone and the compressed file is still in the
  staging directory, holding the batch.
\<close>

theorem compressed_file_left_behind:
  assumes "fst (processMonth_body e year month headers batchNumber w) \<noteq> Break"
  shows "files (snd (processMonth_body e year month headers batchNumber w))
           (csvPath e year month batchNumber) = None
       \<and> files (snd (processMonth_body e year month headers batchNumber w))
           (csvPath e year month batchNumber @ ''.gz'')
         = Some (Gzipped (writeRecords headers (map (serializeRow e)
             (fst (delete_returning (visible w) (monthStart_of year month)
                     (nextMonthStart_of year month) (BATCH_SIZE e))))))"
proof -
  obtain rows rest where
    d: "delete_returning (visible w) (monthStart_of year month) (nextMonthStart_of year month)
          (BATCH_SIZE e) = (rows, rest)"
    by force
  note f = processMonth_body_fields [OF d, of headers batchNumber]
  from assms f(1) have "rows \<noteq> []" by (auto split: if_splits)
  then show ?thesis by (simp add: f(5) d)
qed

theorem compressed_file_left_behind_witness:
  "fst (processMonth_body env0 2022 3 [] 1 world0) \<noteq> Break
   \<and> files (snd (processMonth_body env0 2022 3 [] 1 world0)) (csvPath env0 2022 3 1) = None
   \<and> files (snd (processMonth_body env0 2022 3 [] 1 world0)) (csvPath env0 2022 3 1 @ ''.gz'')
       = Some (Gzipped (writeRecords [] (map (serializeRow env0) [row_b])))"
proof -
  have d: "delete_returning (visible world0) (monthStart_of 2022 3) (nextMonthStart_of 2022 3)
             (BATCH_SIZE env0) = ([row_b], [row_a, row_c])"
    by (simp add: world0_march_batch)
  have h: "fst (processMonth_body env0 2022 3 [] 1 world0) \<noteq> Break"
    by (simp add: processMonth_body_fields [OF d])
  from compressed_file_left_behind [OF h] h d show ?thesis by simp
qed

text \<open>
  The first March batch of the example table succeeds (the archive is in the bucket), and
  its compressed staging file is still there after the pass.
\<close>

theorem compressed_file_persists_after_success:
  "fst (processMonth_body env0 2022 3 (fetchTableHeaders env0) 1 world0) = Continue 1
   \<and> bucket (snd (processMonth_body env0 2022 3 (fetchTableHeaders env0) 1 world0))
       (s3Key_of env0 2022 3 1) \<noteq> None
   \<and> files (snd (processMonth_body env0 2022 3 (fetchTableHeaders env0) 1 world0))
       (csvPath env0 2022 3 1 @ ''.gz'') \<noteq> None"
proof -
  have d: "delete_returning (visible world0) (monthStart_of 2022 3) (nextMonthStart_of 2022 3)
             (BATCH_SIZE env0) = ([row_b], [row_a, row_c])"
    by (simp add: world0_march_batch)
  show ?thesis
    by (simp add: processMonth_body_fields [OF d])
qed

section \<open>Properties of the month loop\<close>

text \<open>
  Claim C6, on the code. From 2022-03-15 to 2022-04-10 the loop passes only March to
  processMonth: after March the date is 2022-04-15, past the end date, so no window
  holds 2022-04-05, a day of the range. From 2022-01-31 to 2022-03-31 it passes January
  and March: \<open>setMonth\<close> turns January 31 into March 3, and no window holds a day of
  February.
\<close>

theorem month_loop_misses_months:
  "((2022, 3, 15) :: date) \<le> (2022, 4, 10)
   \<and> month_loop (2022, 3, 15) (2022, 4, 10) = [(2022, 3)]
   \<and> ((2022, 3, 15) :: date) \<le> (2022, 4, 5) \<and> ((2022, 4, 5) :: date) \<le> (2022, 4, 10)
   \<and> filter (in_month (2022, 4, 5)) (month_loop (2022, 3, 15) (2022, 4, 10)) = []
   \<and> month_loop (2022, 1, 31) (2022, 3, 31) = [(2022, 1), (2022, 3)]
   \<and> filter (in_month (2022, 2, 10)) (month_loop (2022, 1, 31) (2022, 3, 31)) = []"
  by (simp add: month_loop.simps days_in_month_def is_leap_def in_month_def monthStart_of_def
      nextMonthStart_of_def)

text \<open>
  When the start date is the first day of a month (of a year from 100 on, which
  \<open>new Date(year, month, 1)\<close> takes as it is), every day of the range lies in exactly
  one processed window, the window of its own month.
\<close>

lemma days_in_month_pos: "0 < days_in_month y m"
  by (simp add: days_in_month_def)

lemma month_after_range:
  assumes "month_after (y, m) = (y', m')"
  shows "1 \<le> m'" and "m' \<le> 12" and "y \<le> y'" and "(y, m) \<le> (y', m')"
    and "(y, m) < (y', m')"
  using assms by (auto split: if_splits)

lemma month_after_least:
  assumes "month_after (y, m) = (y', m')" and "(y, m) < (dy, dm)" and "1 \<le> dm" and "dm \<le> 12"
  shows "(y', m') \<le> (dy, dm)"
  using assms by (auto split: if_splits)

lemma setMonth_next_first:
  assumes "month_after (y, m) = (y', m')"
  shows "setMonth_next (y, m, Suc 0) = (y', m', Suc 0)"
  using days_in_month_pos [of y' m'] assms
  by (simp add: Suc_le_eq del: month_after.simps)

lemma month_loop_unfold:
  assumes "month_after (y, m) = (y', m')"
  shows "month_loop (y, m, Suc 0) endDate =
           (if (y, m, Suc 0) \<le> endDate then (y, m) # month_loop (y', m', Suc 0) endDate else [])"
  by (subst month_loop.simps) (simp add: setMonth_next_first [OF assms] del: setMonth_next.simps)

lemma in_month_iff:
  assumes "100 \<le> y" and "1 \<le> m" and "m \<le> 12" and "valid_date (dy, dm, dd)"
  shows "in_month (dy, dm, dd) (y, m) \<longleftrightarrow> (dy, dm) = (y, m)"
  using assms
  by (auto simp: in_month_def monthStart_of_def nextMonthStart_of_def valid_date_def Let_def)

lemma month_loop_lower:
  "\<forall>y m. currentDate = (y, m, Suc 0) \<longrightarrow> 1 \<le> m \<longrightarrow> m \<le> 12 \<longrightarrow>
     (\<forall>ym\<in>set (month_loop currentDate endDate). (y, m) \<le> ym \<and> 1 \<le> snd ym \<and> snd ym \<le> 12)"
proof (induction currentDate endDate rule: month_loop.induct)
  case (1 currentDate endDate)
  show ?case
  proof (intro allI impI ballI)
    fix y m ym
    assume c: "currentDate = (y, m, Suc 0)" and m: "1 \<le> m" "m \<le> 12"
      and ym: "ym \<in> set (month_loop currentDate endDate)"
    obtain y' m' where n: "month_after (y, m) = (y', m')" by force
    note r = month_after_range [OF n]
    from ym c have le: "currentDate \<le> endDate"
      by (auto simp: month_loop_unfold [OF n] split: if_splits)
    from ym c le have "ym = (y, m) \<or> ym \<in> set (month_loop (y', m', Suc 0) endDate)"
      by (auto simp: month_loop_unfold [OF n] split: if_splits)
    then show "(y, m) \<le> ym \<and> 1 \<le> snd ym \<and> snd ym \<le> 12"
    proof
      assume "ym = (y, m)"
      with m show ?thesis by simp
    next
      assume a: "ym \<in> set (month_loop (y', m', Suc 0) endDate)"
      have s: "setMonth_next currentDate = (y', m', Suc 0)"
        by (simp only: c setMonth_next_first [OF n])
      from a have a': "ym \<in> set (month_loop (setMonth_next currentDate) endDate)"
        by (simp only: s)
      from "1.IH" [OF le, rule_format, OF s r(1) r(2) a']
      have "(y', m') \<le> ym \<and> 1 \<le> snd ym \<and> snd ym \<le> 12" .
      moreover note r(4)
      ultimately show ?thesis by (blast intro: order_trans)
    qed
  qed
qed

lemma month_loop_first_of_month_aux:
  assumes d: "valid_date (dy, dm, dd)"
  shows "\<forall>y m. currentDate = (y, m, Suc 0) \<longrightarrow> 100 \<le> y \<longrightarrow> 1 \<le> m \<longrightarrow> m \<le> 12 \<longrightarrow>
           currentDate \<le> (dy, dm, dd) \<longrightarrow> (dy, dm, dd) \<le> endDate \<longrightarrow>
           filter (in_month (dy, dm, dd)) (month_loop currentDate endDate) = [(dy, dm)]"
proof (induction currentDate endDate rule: month_loop.induct)
  case (1 currentDate endDate)
  show ?case
  proof (intro allI impI)
    fix y m
    assume c: "currentDate = (y, m, Suc 0)" and y: "100 \<le> y" and m: "1 \<le> m" "m \<le> 12"
      and lo: "currentDate \<le> (dy, dm, dd)" and hi: "(dy, dm, dd) \<le> endDate"
    obtain y' m' where n: "month_after (y, m) = (y', m')" by force
    note r = month_after_range [OF n]
    from lo hi have le: "currentDate \<le> endDate" by (rule order_trans)
    have s: "setMonth_next currentDate = (y', m', Suc 0)"
      by (simp only: c setMonth_next_first [OF n])
    have u: "month_loop currentDate endDate = (y, m) # month_loop (y', m', Suc 0) endDate"
      using le c by (simp add: month_loop_unfold [OF n])
    from d have dv: "1 \<le> dm" "dm \<le> 12" "1 \<le> dd" by (simp_all add: valid_date_def)
    show "filter (in_month (dy, dm, dd)) (month_loop currentDate endDate) = [(dy, dm)]"
    proof (cases "(dy, dm) = (y, m)")
      case True
      have "\<forall>ym\<in>set (month_loop (y', m', Suc 0) endDate). \<not> in_month (dy, dm, dd) ym"
      proof
        fix ym assume a: "ym \<in> set (month_loop (y', m', Suc 0) endDate)"
        from month_loop_lower [of "(y', m', Suc 0)" endDate] r a
        have b: "(y', m') \<le> ym" "1 \<le> snd ym" "snd ym \<le> 12" by auto
        with r y have "100 \<le> fst ym" by (cases ym) auto
        with b d have "in_month (dy, dm, dd) ym \<longleftrightarrow> (dy, dm) = ym"
          using in_month_iff [of "fst ym" "snd ym" dy dm dd] by simp
        moreover from r(5) b(1) have "(y, m) < ym" by (rule less_le_trans)
        ultimately show "\<not> in_month (dy, dm, dd) ym" using True by auto
      qed
      then have "filter (in_month (dy, dm, dd)) (month_loop (y', m', Suc 0) endDate) = []"
        by (simp add: filter_empty_conv)
      moreover have "in_month (dy, dm, dd) (y, m)"
        using in_month_iff [OF y m d] True by simp
      ultimately show ?thesis by (simp add: u True)
    next
      case False
      with lo c dv have "(y, m) < (dy, dm)" by auto
      from month_after_least [OF n this dv(1,2)] dv(3)
      have lo': "(y', m', Suc 0) \<le> (dy, dm, dd)" by auto
      from r y have y': "100 \<le> y'" by simp
      from lo' have lo'': "setMonth_next currentDate \<le> (dy, dm, dd)"
        by (simp only: s)
      from "1.IH" [OF le, rule_format, OF s y' r(1) r(2) lo'' hi]
      have "filter (in_month (dy, dm, dd)) (month_loop (y', m', Suc 0) endDate) = [(dy, dm)]"
        by (simp only: s)
      moreover have "\<not> in_month (dy, dm, dd) (y, m)"
        using in_month_iff [OF y m d] False by simp
      ultimately show ?thesis by (simp add: u)
    qed
  qed
qed

lemma month_loop_first_of_month:
  assumes "100 \<le> y" and "1 \<le> m" and "m \<le> 12" and "valid_date d"
    and "(y, m, 1) \<le> d" and "d \<le> endDate"
  shows "filter (in_month d) (month_loop (y, m, 1) endDate) = [(fst d, fst (snd d))]"
proof -
  obtain dy dm dd where d: "d = (dy, dm, dd)" by (cases d) auto
  have v: "valid_date (dy, dm, dd)" using assms(4) d by simp
  have lo: "(y, m, Suc 0) \<le> (dy, dm, dd)" using assms(5) d by simp
  have hi: "(dy, dm, dd) \<le> endDate" using assms(6) d by simp
  have m1: "1 \<le> m" by (rule assms(2))
  from month_loop_first_of_month_aux [OF v, rule_format, OF refl assms(1) m1 assms(3) lo hi]
  show ?thesis by (simp add: d)
qed

text \<open>
  The loop on the dates of the script's texts. A start date 2022-02-30 is March 2, so
  February is not processed; 2022-02-32 is no date, and the loop does not run. West of
  UTC a run from 2022-03-01 to 2022-03-31 starts on the last day of February, and
  processes February as well.
\<close>

lemma months_of_examples:
  "months_of env0 (2022, 3, 15) (2022, 4, 10) = [(2022, 3)]
   \<and> months_of env0 (2022, 2, 30) (2022, 3, 31) = [(2022, 3)]
   \<and> months_of env0 (2022, 2, 32) (2022, 3, 31) = []
   \<and> months_of env_west (2022, 3, 1) (2022, 3, 31) = [(2022, 2), (2022, 3)]"
  by (simp add: months_of_def new_Date_def day_before_def env_west_def env0_def month_loop.simps
      days_in_month_def is_leap_def)

section \<open>Properties of the validation gate\<close>

lemma replicate_newline_split:
  "length (split newline (replicate n newline)) = Suc n"
  by (simp add: split_length)

lemma writeRecords_no_header:
  "rows \<noteq> [] \<Longrightarrow> writeRecords [] rows = replicate (length rows) newline"
proof (induction rows rule: list_nonempty_induct)
  case (single r)
  then show ?case
    by (simp add: writeRecords_def headerString_def getHeaderString_def getHeaderRecord_def
        isObjectHeader_def stringifyRecords_def getRecordAsArray_def getCsvLine_def joinRecords_def)
next
  case (cons r rs)
  then obtain r' rs' where rs: "rs = r' # rs'" by (cases rs) auto
  from cons.IH show ?case
    by (simp add: rs writeRecords_def headerString_def getHeaderString_def getHeaderRecord_def
        isObjectHeader_def stringifyRecords_def getRecordAsArray_def getCsvLine_def joinRecords_def)
qed

text \<open>
  Claim C8, on the code. \<open>split\<close> counts the text after the last line feed as one more
  line, and csv-writer ends every record with a line feed, so no file the writer makes
  has fewer than two parts: the gate lets every batch through, whatever the header list.
  The header list is empty when the catalogue query of fetchTableHeaders finds no column
  under \<open>tableName\<close> (a name with its schema, or with capital letters, which the batch
  statement folds to lower case and the catalogue query does not). csv-writer then
  writes no header line and nothing for a row, so the file of a batch of rows holds one
  line feed per row, neither a header nor data: the gate passes it, and the writer
  returns the path of the compressed file, which holds that text.
\<close>

theorem gate_passes_without_header:
  assumes "rows \<noteq> []"
  shows "fst (writeToCompressedFile e rows year month batchNumber headers w)
           = Inr (csvPath e year month batchNumber @ ''.gz'')
       \<and> files (snd (writeToCompressedFile e rows year month batchNumber [] w))
             (csvPath e year month batchNumber @ ''.gz'')
           = Some (Gzipped (replicate (length rows) newline))
       \<and> length (split newline (replicate (length rows) newline)) = Suc (length rows)"
  using assms
  by (simp add: writeToCompressedFile_result writeRecords_no_header replicate_newline_split)

theorem gate_passes_without_header_witness:
  \<open>[row_b] \<noteq> []
   \<and> fetchTableHeaders env_nocols = []
   \<and> fst (writeToCompressedFile env_nocols [row_b] 2022 3 1 (fetchTableHeaders env_nocols) world0)
       = Inr (csvPath env_nocols 2022 3 1 @ ''.gz'')
   \<and> files (snd (writeToCompressedFile env_nocols [row_b] 2022 3 1 [] world0))
         (csvPath env_nocols 2022 3 1 @ ''.gz'')
       = Some (Gzipped ''\<newline>'')
   \<and> length (split newline ''\<newline>'') = 2\<close>
proof -
  have h: "fetchTableHeaders env_nocols = []"
    by (simp add: fetchTableHeaders_def env_nocols_def)
  have n: "[row_b] \<noteq> []" by simp
  from gate_passes_without_header [OF n, of env_nocols 2022 3 1 "[]" world0] h
  show ?thesis by (simp add: newline_def)
qed

text \<open>
  The whole pass of processMonth for such a table name: the March batch of the example
  table is deleted, its archive of one line feed is put into the bucket, and the delete
  is committed.
\<close>

lemma batch_without_columns_is_archived_blank:
  \<open>fst (processMonth_body env_nocols 2022 3 (fetchTableHeaders env_nocols) 1 world0) = Continue 1
   \<and> bucket (snd (processMonth_body env_nocols 2022 3 (fetchTableHeaders env_nocols) 1 world0))
       (s3Key_of env_nocols 2022 3 1) = Some (Gzipped ''\<newline>'')
   \<and> db_table (snd (processMonth_body env_nocols 2022 3 (fetchTableHeaders env_nocols) 1 world0))
       = [row_a, row_c]
   \<and> txn (snd (processMonth_body env_nocols 2022 3 (fetchTableHeaders env_nocols) 1 world0)) = None\<close>
proof -
  have h: "fetchTableHeaders env_nocols = []"
    by (simp add: fetchTableHeaders_def env_nocols_def)
  have b: "BATCH_SIZE env_nocols = Suc 0" "put_fails env_nocols k = False" for k
    by (simp_all add: env_nocols_def env0_def)
  have d: "delete_returning (visible world0) (monthStart_of 2022 3) (nextMonthStart_of 2022 3)
             (BATCH_SIZE env_nocols) = ([row_b], [row_a, row_c])"
    by (simp add: world0_march_batch b)
  have s: "map (serializeRow env_nocols) [row_b] \<noteq> []" by simp
  show ?thesis
    using writeRecords_no_header [OF s]
    by (simp add: processMonth_body_fields [OF d] h b newline_def)
qed

text \<open>
  With the columns of the table as headers the file has its header line and a line for
  each row, and the gate passes, as the second half of the claim says.
\<close>

lemma gate_example:
  \<open>writeRecords (fetchTableHeaders env0) (map (serializeRow env0) [row_b])
     = ''"ID","NAME","CREATED_AT"\<newline>"2","bob","2022-03-05T00:00:00.000Z"\<newline>''\<close>
  by (simp add: csv_writer_defs fetchTableHeaders_def env0_def toUpperCase_def row_b_def
      dquote_def comma_def newline_def)

section \<open>Properties of the serialisation\<close>

lemma serialize_key_frame:
  "length (serialize_key e n key h) = length h"
  "i \<noteq> n \<Longrightarrow> serialize_key e n key h ! i = h ! i"
  by (simp_all add: serialize_key_def assign_def split: val.splits)

lemma fold_serialize_key_frame:
  "length (fold (serialize_key e n) ks h) = length h
   \<and> (\<forall>i. i \<noteq> n \<longrightarrow> fold (serialize_key e n) ks h ! i = h ! i)"
  by (induction ks arbitrary: h) (simp_all add: serialize_key_frame)

lemma serialize_object_frame:
  assumes "serialize_object e h a = (n, h')"
  shows "n = length h" and "length h' = Suc (length h)" and "\<forall>i<length h. h' ! i = h ! i"
  using assms fold_serialize_key_frame [of e "length h" _ "h @ [h ! a]"]
  by (auto simp: serialize_object_def spread_copy_def nth_append)

lemma serializedRows_frame:
  "serializedRows e rows h = (ns, h') \<Longrightarrow>
     length h \<le> length h' \<and> (\<forall>i<length h. h' ! i = h ! i) \<and> (\<forall>n\<in>set ns. length h \<le> n)"
proof (induction rows arbitrary: h ns h')
  case Nil
  then show ?case by simp
next
  case (Cons a rows)
  obtain n h1 where o: "serialize_object e h a = (n, h1)" by force
  obtain ms h2 where r: "serializedRows e rows h1 = (ms, h2)" by force
  from Cons.prems o r have eq: "ns = n # ms" "h' = h2" by simp_all
  note f = serialize_object_frame [OF o]
  from Cons.IH [OF r] have
    ih: "length h1 \<le> length h2" "\<forall>i<length h1. h2 ! i = h1 ! i" "\<forall>n\<in>set ms. length h1 \<le> n"
    by simp_all
  show ?case
    using f ih eq by auto
qed

text \<open>
  Claim C10. When the addresses in \<open>rows\<close> are objects of the heap, the serialisation
  leaves every object that was there as it was: each original row still gives each column
  its original value, the old part of the heap is unchanged, and the rows it returns are
  new objects, none of them an input row.
\<close>

theorem serialization_keeps_rows:
  assumes "\<forall>a\<in>set rows. a < length h"
  shows "(\<forall>a\<in>set rows. \<forall>c. column c (snd (serializedRows e rows h) ! a) = column c (h ! a))
       \<and> take (length h) (snd (serializedRows e rows h)) = h
       \<and> (\<forall>n\<in>set (fst (serializedRows e rows h)). n \<notin> set rows)"
proof -
  obtain ns h' where r: "serializedRows e rows h = (ns, h')" by force
  from serializedRows_frame [OF r] have
    f: "length h \<le> length h'" "\<forall>i<length h. h' ! i = h ! i" "\<forall>n\<in>set ns. length h \<le> n"
    by simp_all
  have "take (length h) h' = h"
    using f(1,2) by (auto intro: nth_equalityI)
  moreover have "\<forall>a\<in>set rows. \<forall>c. column c (h' ! a) = column c (h ! a)"
    using assms f(2) by simp
  moreover have "\<forall>n\<in>set ns. n \<notin> set rows"
    using assms f(3) by fastforce
  ultimately show ?thesis by (simp add: r)
qed

theorem serialization_keeps_rows_witness:
  "serializedRows env0 [0] heap0
     = ([1], [[(''id'', VNum 7), (''at'', VDate (2022, 3, 5, 0)), (''doc'', VObj (JObj []))],
              [(''id'', VNum 7), (''at'', VStr ''2022-03-05T00:00:00.000Z''),
               (''doc'', VStr [dquote, CHR ''{'', CHR ''}'', dquote])]])
   \<and> column ''at'' (snd (serializedRows env0 [0] heap0) ! 0) = VDate (2022, 3, 5, 0)
   \<and> column ''doc'' (snd (serializedRows env0 [0] heap0) ! 0) = VObj (JObj [])
   \<and> take (length heap0) (snd (serializedRows env0 [0] heap0)) = heap0"
proof -
  have h: "\<forall>a\<in>set [0::nat]. a < length heap0" by (simp add: heap0_def)
  have v: "serializedRows env0 [0] heap0
     = ([1], [[(''id'', VNum 7), (''at'', VDate (2022, 3, 5, 0)), (''doc'', VObj (JObj []))],
              [(''id'', VNum 7), (''at'', VStr ''2022-03-05T00:00:00.000Z''),
               (''doc'', VStr [dquote, CHR ''{'', CHR ''}'', dquote])]])"
    by (simp add: heap0_def serialize_object_def spread_copy_def serialize_key_def assign_def
        column_def env0_def replace_quotes_def dquote_def)
  have c: "column ''at'' (heap0 ! 0) = VDate (2022, 3, 5, 0)"
          "column ''doc'' (heap0 ! 0) = VObj (JObj [])"
    by (simp_all add: heap0_def column_def)
  from serialization_keeps_rows [OF h, of env0] v c show ?thesis by simp
qed

text \<open>
  The new objects hold the rows as serializeRow computes them (a row's columns have
  distinct names), which is what the archive writer writes.
\<close>

lemma serialize_key_update:
  "serialize_key e n key h = h[n := serialize_prop e key (h ! n)]"
  by (simp add: serialize_key_def serialize_prop_def assign_def split: val.splits)

lemma fold_serialize_key_update:
  "n < length h \<Longrightarrow>
     fold (serialize_key e n) ks h = h[n := fold (serialize_prop e) ks (h ! n)]"
  by (induction ks arbitrary: h) (simp_all add: serialize_key_update)

lemma set_prop_append:
  "k \<notin> fst ` set p \<Longrightarrow> set_prop k v' (p @ (k, v) # s) = p @ (k, v') # s"
  by (induction p) auto

lemma column_append:
  "k \<notin> fst ` set p \<Longrightarrow> column k (p @ (k, v) # s) = v"
  by (simp add: column_def map_add_def map_of_eq_None_iff [THEN iffD2] split: option.splits)

lemma serialize_prop_append:
  assumes "k \<notin> fst ` set p"
  shows "serialize_prop e k (p @ (k, v) # s) = p @ (k, serialize_value e v) # s"
  using assms
  by (cases v) (simp_all add: serialize_prop_def serialize_value_def column_append set_prop_append)

lemma fold_serialize_prop:
  "distinct (map fst (p @ s)) \<Longrightarrow>
     fold (serialize_prop e) (map fst s) (p @ s) = p @ serializeRow e s"
proof (induction s arbitrary: p)
  case Nil
  then show ?case by (simp add: serializeRow_def)
next
  case (Cons kv s)
  obtain k v where kv: "kv = (k, v)" by (cases kv) auto
  from Cons.prems kv have nk: "k \<notin> fst ` set p" and
    d: "distinct (map fst ((p @ [(k, serialize_value e v)]) @ s))"
    by auto
  from Cons.IH [OF d] show ?case
    by (simp add: kv serialize_prop_append [OF nk] serializeRow_def)
qed

lemma serialize_object_contents:
  assumes "a < length h" and "distinct (map fst (h ! a))"
  shows "serialize_object e h a = (length h, h @ [serializeRow e (h ! a)])"
proof -
  have "fold (serialize_prop e) (map fst (h ! a)) ([] @ h ! a) = [] @ serializeRow e (h ! a)"
    using assms(2) by (intro fold_serialize_prop) simp
  then show ?thesis
    using assms(1)
    by (simp add: serialize_object_def spread_copy_def fold_serialize_key_update nth_append)
qed

lemma serializedRows_contents:
  assumes "\<forall>a\<in>set rows. a < length h \<and> distinct (map fst (h ! a))"
  shows "map (\<lambda>n. snd (serializedRows e rows h) ! n) (fst (serializedRows e rows h))
           = map (\<lambda>a. serializeRow e (h ! a)) rows"
  using assms
proof (induction rows arbitrary: h)
  case Nil
  then show ?case by simp
next
  case (Cons a rows)
  let ?h1 = "h @ [serializeRow e (h ! a)]"
  from Cons.prems have a: "a < length h" "distinct (map fst (h ! a))" by simp_all
  note o = serialize_object_contents [OF a, of e]
  obtain ns h2 where r: "serializedRows e rows ?h1 = (ns, h2)" by force
  have p: "\<forall>b\<in>set rows. b < length ?h1 \<and> distinct (map fst (?h1 ! b))"
    using Cons.prems by (auto simp: nth_append)
  from Cons.IH [OF p] r have ih: "map (\<lambda>n. h2 ! n) ns = map (\<lambda>b. serializeRow e (?h1 ! b)) rows"
    by simp
  have same: "map (\<lambda>b. serializeRow e (?h1 ! b)) rows = map (\<lambda>b. serializeRow e (h ! b)) rows"
    using Cons.prems by (auto simp: nth_append)
  have "h2 ! length h = ?h1 ! length h"
    using serializedRows_frame [OF r] by simp
  then have "h2 ! length h = serializeRow e (h ! a)" by simp
  with ih same show ?case by (simp add: o r)
qed

section \<open>Properties of the codec\<close>

lemmas csv_parse_defs =
  csv_parse_def at_field_start_def onField_def onRecord_def dquote_def comma_def newline_def

lemma archive_of_row_comma:
  \<open>writeRecords hs2 (map (serializeRow env0) [row_comma]) = ''"ID","NAME"\<newline>"1","a,b"\<newline>''\<close>
  by (simp add: csv_writer_defs hs2_def row_comma_def dquote_def comma_def newline_def)

lemma parse_archive_of_row_comma:
  \<open>csv_parse True ''"ID","NAME"\<newline>"1","a,b"\<newline>'' = ([[''ID'', ''NAME''], [''1'', ''a,b'']], None)\<close>
  by (simp add: csv_parse_defs)

lemma processed_row_comma:
  "processed_text (records_of [[''ID'', ''NAME''], [''1'', ''a,b'']]) = ''ID,NAME\<newline>1,a,b\<newline>''"
  by (simp add: processed_text_def records_of_def to_object_def get_prop_def Object_keys_def
      is_array_index_def comma_def newline_def)

lemma parse_processed_row_comma:
  "csv_parse False ''ID,NAME\<newline>1,a,b\<newline>'' = ([[''ID'', ''NAME''], [''1'', ''a'', ''b'']], None)"
  by (simp add: csv_parse_defs)

text \<open>
  Claim C2, on the code. The row holds the text \<open>a,b\<close> in its column \<open>name\<close>. The
  backup writes it quoted; preprocessCsvFile parses the archive and writes the record's
  values joined by commas with no quoting, which gives the line \<open>1,a,b\<close>; read as a CSV
  record (as \<open>COPY\<close> and readCsvHeaders read the file), this line has the three
  fields \<open>1\<close>, \<open>a\<close> and \<open>b\<close>: the text does not come back as one field.
\<close>

theorem comma_text_does_not_round_trip:
  "column ''name'' row_comma = VStr ''a,b''
   \<and> processed_text (records_of (fst (csv_parse True
         (writeRecords hs2 (map (serializeRow env0) [row_comma])))))
       = ''ID,NAME\<newline>1,a,b\<newline>''
   \<and> fst (csv_parse False ''ID,NAME\<newline>1,a,b\<newline>'')
       = [[''ID'', ''NAME''], [''1'', ''a'', ''b'']]"
proof -
  have "column ''name'' row_comma = VStr ''a,b''"
    by (simp add: row_comma_def column_def)
  moreover have "processed_text (records_of (fst (csv_parse True
         (writeRecords hs2 (map (serializeRow env0) [row_comma])))))
       = ''ID,NAME\<newline>1,a,b\<newline>''"
    by (simp only: archive_of_row_comma parse_archive_of_row_comma fst_conv processed_row_comma)
  ultimately show ?thesis
    by (simp only: parse_processed_row_comma fst_conv simp_thms)
qed

text \<open>
  The archive itself loses nothing: for a table of at least two columns, csv-parse reads
  back the titles and, for every row, the text of every field as csv-writer was given
  it, commas, quotes and line feeds included. What is lost is lost in the unquoted
  \<open>join\<close> of preprocessCsvFile.
\<close>

lemma parse_inside_quotes:
  assumes "rest = [] \<or> hd rest = comma \<or> hd rest = newline"
  shows "p_quoting p \<Longrightarrow>
         parse_chars skip (replace_quotes s @ dquote # rest) p
           = parse_chars skip rest (p\<lparr>p_field := p_field p @ s, p_quoting := False, p_wasQuoting := True\<rparr>)"
proof (induction s arbitrary: p)
  case Nil
  with assms show ?case
    by (auto simp: replace_quotes_def dquote_def comma_def newline_def)
next
  case (Cons c s)
  show ?case
  proof (cases "c = dquote")
    case True
    have "parse_chars skip (replace_quotes (c # s) @ dquote # rest) p
            = parse_chars skip (replace_quotes s @ dquote # rest) (p\<lparr>p_field := p_field p @ [dquote]\<rparr>)"
      using True Cons.prems by (simp add: replace_quotes_def)
    also have "\<dots> = parse_chars skip rest
        ((p\<lparr>p_field := p_field p @ [dquote]\<rparr>)
           \<lparr>p_field := p_field (p\<lparr>p_field := p_field p @ [dquote]\<rparr>) @ s,
            p_quoting := False, p_wasQuoting := True\<rparr>)"
      using Cons.prems by (intro Cons.IH) simp
    finally show ?thesis using True by simp
  next
    case False
    have "parse_chars skip (replace_quotes (c # s) @ dquote # rest) p
            = parse_chars skip (replace_quotes s @ dquote # rest) (p\<lparr>p_field := p_field p @ [c]\<rparr>)"
      using False Cons.prems by (simp add: replace_quotes_def)
    also have "\<dots> = parse_chars skip rest
        ((p\<lparr>p_field := p_field p @ [c]\<rparr>)
           \<lparr>p_field := p_field (p\<lparr>p_field := p_field p @ [c]\<rparr>) @ s,
            p_quoting := False, p_wasQuoting := True\<rparr>)"
      using Cons.prems by (intro Cons.IH) simp
    finally show ?thesis by simp
  qed
qed

lemma parse_field_comma:
  "parse_chars skip (stringify v @ comma # rest) (at_field_start acc recs)
     = parse_chars skip rest (at_field_start (acc @ [field_text v]) recs)"
proof (cases "isEmpty v")
  case True
  then show ?thesis
    by (simp add: stringify_def field_text_def at_field_start_def onField_def
        dquote_def comma_def newline_def)
next
  case False
  have "parse_chars skip (stringify v @ comma # rest) (at_field_start acc recs)
          = parse_chars skip (replace_quotes (js_String v) @ dquote # comma # rest)
              ((at_field_start acc recs)\<lparr>p_quoting := True\<rparr>)"
    using False by (simp add: stringify_def quoteField_def at_field_start_def)
  also have "\<dots> = parse_chars skip (comma # rest)
      (((at_field_start acc recs)\<lparr>p_quoting := True\<rparr>)
         \<lparr>p_field := p_field ((at_field_start acc recs)\<lparr>p_quoting := True\<rparr>) @ js_String v,
          p_quoting := False, p_wasQuoting := True\<rparr>)"
    by (intro parse_inside_quotes) simp_all
  also have "\<dots> = parse_chars skip rest (at_field_start (acc @ [field_text v]) recs)"
    using False
    by (simp add: at_field_start_def field_text_def onField_def dquote_def comma_def newline_def)
  finally show ?thesis .
qed

lemma parse_field_newline:
  assumes "\<not> (skip \<and> acc = [] \<and> isEmpty v)"
  shows "parse_chars skip (stringify v @ newline # rest) (at_field_start acc recs)
           = parse_chars skip rest (at_field_start [] (recs @ [acc @ [field_text v]]))"
proof (cases "isEmpty v")
  case True
  with assms show ?thesis
    by (auto simp: stringify_def field_text_def at_field_start_def onField_def onRecord_def
        dquote_def comma_def newline_def)
next
  case False
  have "parse_chars skip (stringify v @ newline # rest) (at_field_start acc recs)
          = parse_chars skip (replace_quotes (js_String v) @ dquote # newline # rest)
              ((at_field_start acc recs)\<lparr>p_quoting := True\<rparr>)"
    using False by (simp add: stringify_def quoteField_def at_field_start_def)
  also have "\<dots> = parse_chars skip (newline # rest)
      (((at_field_start acc recs)\<lparr>p_quoting := True\<rparr>)
         \<lparr>p_field := p_field ((at_field_start acc recs)\<lparr>p_quoting := True\<rparr>) @ js_String v,
          p_quoting := False, p_wasQuoting := True\<rparr>)"
    by (intro parse_inside_quotes) simp_all
  also have "\<dots> = parse_chars skip rest (at_field_start [] (recs @ [acc @ [field_text v]]))"
    using False
    by (simp add: at_field_start_def field_text_def onField_def onRecord_def
        dquote_def comma_def newline_def)
  finally show ?thesis .
qed

lemma parse_line:
  assumes "vs \<noteq> []" and "\<not> (skip \<and> acc = [] \<and> length vs = 1 \<and> isEmpty (hd vs))"
  shows "parse_chars skip (getCsvLine vs @ newline # rest) (at_field_start acc recs)
           = parse_chars skip rest (at_field_start [] (recs @ [acc @ map field_text vs]))"
  using assms
proof (induction vs arbitrary: acc)
  case Nil
  then show ?case by simp
next
  case (Cons v vs)
  show ?case
  proof (cases vs)
    case Nil
    with Cons.prems parse_field_newline [of skip acc v rest recs] show ?thesis
      by (simp add: getCsvLine_def)
  next
    case (Cons v' vs')
    have "parse_chars skip (getCsvLine (v # vs) @ newline # rest) (at_field_start acc recs)
            = parse_chars skip (stringify v @ comma # getCsvLine vs @ newline # rest)
                (at_field_start acc recs)"
      by (simp add: getCsvLine_def Cons)
    also have "\<dots> = parse_chars skip (getCsvLine vs @ newline # rest)
                (at_field_start (acc @ [field_text v]) recs)"
      by (rule parse_field_comma)
    also have "\<dots> = parse_chars skip rest
                (at_field_start [] (recs @ [(acc @ [field_text v]) @ map field_text vs]))"
      by (rule Cons.IH) (simp_all add: Cons)
    finally show ?thesis by simp
  qed
qed

lemma parse_lines:
  assumes "\<forall>vs\<in>set lines. vs \<noteq> [] \<and> \<not> (skip \<and> length vs = 1 \<and> isEmpty (hd vs))"
  shows "parse_chars skip (concat (map (\<lambda>vs. getCsvLine vs @ [newline]) lines))
             (at_field_start [] recs)
           = (at_field_start [] (recs @ map (map field_text) lines), None)"
  using assms
proof (induction lines arbitrary: recs)
  case Nil
  then show ?case by (simp add: at_field_start_def)
next
  case (Cons vs lines)
  have "parse_chars skip (concat (map (\<lambda>vs. getCsvLine vs @ [newline]) (vs # lines)))
            (at_field_start [] recs)
          = parse_chars skip (concat (map (\<lambda>vs. getCsvLine vs @ [newline]) lines))
              (at_field_start [] (recs @ [[] @ map field_text vs]))"
    using Cons.prems
    parse_line [of vs skip "[]" "concat (map (\<lambda>vs. getCsvLine vs @ [newline]) lines)" recs]
    by simp
  also have "\<dots> = (at_field_start [] ((recs @ [[] @ map field_text vs]) @ map (map field_text) lines), None)"
    using Cons.prems by (intro Cons.IH) simp
  finally show ?case by simp
qed

lemma joinRecords_concat:
  "ls \<noteq> [] \<Longrightarrow> joinRecords ls = concat (map (\<lambda>l. l @ [newline]) ls)"
proof (induction ls)
  case Nil
  then show ?case by simp
next
  case (Cons l ls)
  then show ?case by (cases ls) (auto simp: joinRecords_def)
qed

lemma field_text_VStr: "field_text (VStr s) = s"
  by (simp add: field_text_def isEmpty_def js_String_def)

lemma archive_parses_back:
  assumes "2 \<le> length headers" and "rows \<noteq> []"
  shows "csv_parse skip (writeRecords headers rows)
           = (map snd headers # map (\<lambda>r. map (\<lambda>h. field_text (column (fst h) r)) headers) rows,
              None)"
proof -
  let ?lines = "map (\<lambda>h. VStr (snd h)) headers
                  # map (\<lambda>r. map (\<lambda>h. column (fst h) r) headers) rows"
  from assms(1) have ne: "headers \<noteq> []" by auto
  have w: "writeRecords headers rows = concat (map (\<lambda>vs. getCsvLine vs @ [newline]) ?lines)"
    using assms(2) ne
    by (simp add: writeRecords_def headerString_def getHeaderString_def getHeaderRecord_def
        isObjectHeader_def stringifyRecords_def getRecordAsArray_def joinRecords_concat comp_def)
  have ok: "\<forall>vs\<in>set ?lines. vs \<noteq> [] \<and> \<not> (skip \<and> length vs = 1 \<and> isEmpty (hd vs))"
    using assms(1) by auto
  from parse_lines [OF ok, of "[]"] show ?thesis
    by (simp add: csv_parse_def w comp_def field_text_VStr) (simp add: at_field_start_def)
qed

section \<open>Properties of the restore script\<close>

lemma unlink_fields [simp]:
  "db_table (unlink_if_exists p w) = db_table w" "txn (unlink_if_exists p w) = txn w"
  "bucket (unlink_if_exists p w) = bucket w" "db_log (unlink_if_exists p w) = db_log w"
  "console_error (unlink_if_exists p w) = console_error w"
  "files (unlink_if_exists p w) = (files w)(p := None)"
  by (auto simp: unlink_if_exists_def)

lemma cleanup_fields [simp]:
  "db_table (cleanup w) = db_table w" "txn (cleanup w) = txn w"
  "bucket (cleanup w) = bucket w" "db_log (cleanup w) = db_log w"
  "console_error (cleanup w) = console_error w"
  "files (cleanup w) = (files w)(BACKUP_PATH @ ''/temp-file.csv'' := None,
                                 BACKUP_PATH @ ''/processed-temp-file.csv'' := None)"
  by (simp_all add: cleanup_def)

lemma preprocessCsvFile_fields:
  assumes "preprocessCsvFile i out w = (r, w')"
  shows "db_table w' = db_table w" "txn w' = txn w" "bucket w' = bucket w" "db_log w' = db_log w"
    "console_error w' = console_error w" "visible w' = visible w"
  using assms
  by (auto simp: preprocessCsvFile_def visible_def split: option.splits content.splits prod.splits)

lemma preprocessCsvFile_error:
  assumes "files w i = Some (Plain text)" and "snd (csv_parse True text) = Some err"
  shows "fst (preprocessCsvFile i out w) = Failed (ParseError err)"
  using assms by (cases "csv_parse True text") (simp add: preprocessCsvFile_def)



lemma restore_script_code:
  "fst (restore_script e ym b w)
     = (if fst (downloadAndRestoreS3File e (restore_s3Key e ym b) w) = Hangs then None
        else if fst (downloadAndRestoreS3File e (restore_s3Key e ym b) w) = Dies then Some 1
        else Some 0)"
  by (simp add: restore_script_def split: prod.splits outcome.splits)

lemma restore_script_world:
  "snd (restore_script e ym b w) = snd (downloadAndRestoreS3File e (restore_s3Key e ym b) w)"
  by (simp add: restore_script_def split: prod.splits outcome.splits)



lemma parse_archive_bad:
  "csv_parse True archive_bad = ([[''ID''], [''1'']], Some QuoteNotClosed)"
  by (simp add: archive_bad_def csv_parse_defs)






lemma env_reject_fields [simp]:
  "row_rejected env_reject r = True" "tableName env_reject = tableName env0"
  by (simp_all add: env_reject_def)

lemma restore_key_reject [simp]: "restore_s3Key env_reject ym b = restore_s3Key env0 ym b"
  by (simp add: restore_s3Key_def)







section \<open>Malformed records on restore\<close>

text \<open>
  With distinct column names none of which is an array index, the object of a record
  has the columns in their order, as many as the record has fields.
\<close>

lemma set_prop_new: "k \<notin> fst ` set ps \<Longrightarrow> set_prop k v ps = ps @ [(k, v)]"
  by (induction ps) auto

lemma fold_set_prop_append:
  "distinct (map fst (acc @ kvs)) \<Longrightarrow>
     fold (\<lambda>(k, v) obj. set_prop k v obj) kvs acc = acc @ kvs"
proof (induction kvs arbitrary: acc)
  case Nil
  then show ?case by simp
next
  case (Cons kv kvs)
  obtain k v where kv: "kv = (k, v)" by (cases kv) auto
  from Cons.prems kv have nk: "k \<notin> fst ` set acc" by auto
  from Cons.prems kv have d: "distinct (map fst ((acc @ [(k, v)]) @ kvs))" by auto
  have "fold (\<lambda>(k, v) obj. set_prop k v obj) (kv # kvs) acc
          = fold (\<lambda>(k, v) obj. set_prop k v obj) kvs (acc @ [(k, v)])"
    by (simp add: kv set_prop_new [OF nk])
  also have "\<dots> = (acc @ [(k, v)]) @ kvs"
    by (rule Cons.IH [OF d])
  finally show ?case by (simp add: kv)
qed

lemma to_object_zip:
  assumes "distinct columns"
  shows "to_object columns r = zip columns r"
proof -
  have "distinct (map fst (zip columns r))"
    using assms by (simp add: map_fst_zip_take)
  then show ?thesis
    using fold_set_prop_append [of "[]" "zip columns r"] by (simp add: to_object_def)
qed

lemma Object_keys_plain:
  assumes "list_all (\<lambda>k. \<not> is_array_index k) (map fst obj)"
  shows "Object_keys obj = map fst obj"
proof -
  from assms have a: "\<forall>k\<in>set (map fst obj). \<not> is_array_index k"
    by (simp add: list_all_iff)
  then have "filter is_array_index (map fst obj) = []"
    by (simp add: filter_empty_conv)
  moreover from a have "filter (\<lambda>k. \<not> is_array_index k) (map fst obj) = map fst obj"
    by (simp add: filter_id_conv)
  ultimately show ?thesis by (simp add: Object_keys_def)
qed

lemma map_of_zip_nth_any:
  "distinct xs \<Longrightarrow> i < length xs \<Longrightarrow>
     map_of (zip xs ys) (xs ! i) = (if i < length ys then Some (ys ! i) else None)"
proof (induction xs arbitrary: ys i)
  case Nil
  then show ?case by simp
next
  case (Cons x xs)
  show ?case
  proof (cases ys)
    case Nil
    then show ?thesis by simp
  next
    case (Cons y ys')
    show ?thesis
    proof (cases i)
      case 0
      with Cons show ?thesis by simp
    next
      case (Suc j)
      with Cons.prems have j: "j < length xs" and d: "distinct xs" and "xs ! j \<noteq> x"
        by auto
      with Cons.IH [OF d j, of ys'] Cons Suc show ?thesis by simp
    qed
  qed
qed

lemma to_object_get_prop:
  assumes "distinct columns" and "i < length columns"
  shows "get_prop (to_object columns r) (columns ! i) = (if i < length r then r ! i else [])"
  using map_of_zip_nth_any [OF assms, of r]
  by (simp add: get_prop_def to_object_zip [OF assms(1)])

lemma to_object_values:
  assumes "distinct columns" and "k \<le> length columns"
  shows "map (get_prop (to_object columns r)) (take k columns)
           = map (\<lambda>i. if i < length r then r ! i else []) [0 ..< k]"
proof (rule nth_equalityI)
  show "length (map (get_prop (to_object columns r)) (take k columns))
          = length (map (\<lambda>i. if i < length r then r ! i else []) [0 ..< k])"
    using assms(2) by simp
next
  fix i assume "i < length (map (get_prop (to_object columns r)) (take k columns))"
  with assms(2) have i: "i < k" "i < length columns" by auto
  with to_object_get_prop [OF assms(1) i(2), of r]
  show "map (get_prop (to_object columns r)) (take k columns) ! i
          = map (\<lambda>i. if i < length r then r ! i else []) [0 ..< k] ! i"
    by simp
qed

lemma processed_text_records:
  assumes d: "distinct columns" and p: "list_all (\<lambda>c. \<not> is_array_index c) columns"
  shows "processed_text (records_of (columns # first # rest))
           = concat (map (\<lambda>fields. join [comma] fields @ [newline])
               (take (length first) columns
                # map (\<lambda>r. map (\<lambda>i. if i < length r then r ! i else [])
                               [0 ..< min (length columns) (length first)])
                    (first # rest)))"
proof -
  let ?k = "min (length columns) (length first)"
  have keys: "map fst (to_object columns first) = take ?k columns"
    by (simp add: to_object_zip [OF d] map_fst_zip_take)
  have tk: "take ?k columns = take (length first) columns"
    by (simp add: min_def)
  from p have "list_all (\<lambda>c. \<not> is_array_index c) (take ?k columns)"
    by (auto simp: list_all_iff dest: in_set_takeD)
  then have ok: "Object_keys (to_object columns first) = take ?k columns"
    using Object_keys_plain [of "to_object columns first"] by (simp add: keys)
  have v: "map (get_prop (to_object columns r)) (take ?k columns)
             = map (\<lambda>i. if i < length r then r ! i else []) [0 ..< ?k]" for r
    by (rule to_object_values [OF d]) simp
  show ?thesis
    by (simp add: processed_text_def records_of_def Let_def ok v comp_def flip: tk)
qed

lemma download_parse_error:
  assumes "bucket w key = Some (Gzipped text)" and "snd (csv_parse True text) = Some err"
  shows "fst (downloadAndRestoreS3File e key w) = Done"
    and "db_table (snd (downloadAndRestoreS3File e key w)) = db_table w"
    and "db_log (snd (downloadAndRestoreS3File e key w)) = db_log w"
    and "console_error (snd (downloadAndRestoreS3File e key w)) = console_error w @ [ParseError err]"
proof -
  let ?i = "BACKUP_PATH @ ''/temp-file.csv''"
  let ?w1 = "w\<lparr>files := (files w)(?i \<mapsto> Plain text)\<rparr>"
  obtain r2 w2 where p: "preprocessCsvFile ?i (BACKUP_PATH @ ''/processed-temp-file.csv'') ?w1 = (r2, w2)"
    by force
  have "files ?w1 ?i = Some (Plain text)" by simp
  from preprocessCsvFile_error [OF this assms(2), of "BACKUP_PATH @ ''/processed-temp-file.csv''"] p
  have r2: "r2 = Failed (ParseError err)" by simp
  note pf = preprocessCsvFile_fields [OF p]
  show "fst (downloadAndRestoreS3File e key w) = Done"
    and "db_table (snd (downloadAndRestoreS3File e key w)) = db_table w"
    and "db_log (snd (downloadAndRestoreS3File e key w)) = db_log w"
    and "console_error (snd (downloadAndRestoreS3File e key w)) = console_error w @ [ParseError err]"
    using assms(1) p r2 pf by (simp_all add: downloadAndRestoreS3File_def Let_def)
qed

lemma preprocessCsvFile_records:
  assumes "files w inputFilePath = Some (Plain text)"
    and "csv_parse True text = (columns # first # rest, None)"
    and "distinct columns" and "list_all (\<lambda>c. \<not> is_array_index c) columns"
  shows "preprocessCsvFile inputFilePath outputFilePath w
           = (Done, w\<lparr>files := (files w)(outputFilePath \<mapsto> Plain
                (concat (map (\<lambda>fields. join [comma] fields @ [newline])
                   (take (length first) columns
                    # map (\<lambda>r. map (\<lambda>i. if i < length r then r ! i else [])
                                   [0 ..< min (length columns) (length first)])
                        (first # rest)))))\<rparr>)"
  using assms(1,2) processed_text_records [OF assms(3,4), of first rest]
  by (simp add: preprocessCsvFile_def)

text \<open>
  Claim C7, as the code has it. A quoting error anywhere in the archive (an unterminated
  quote, say) makes the parser fail, and the restore stops there: the error is printed,
  no command is sent to the database and the table is what it was, so no record of the
  file is loaded. A record whose number of fields is not the number of columns is not
  skipped, and nothing is printed for it. For an archive that parses without error, has
  at least one record, and has distinct column names none of which is an array index,
  preprocessCsvFile writes a header line and one line for every record the parser
  reads; the columns of the processed file are the columns of the archive, as many as
  the first record has fields, and the line of a record holds its fields for these
  columns, with an empty field where the record is too short and without the fields
  beyond them.
\<close>

theorem malformed_record_on_restore:
  "(bucket w key = Some (Gzipped text) \<and> snd (csv_parse True text) = Some err \<longrightarrow>
      fst (downloadAndRestoreS3File e key w) = Done
      \<and> db_table (snd (downloadAndRestoreS3File e key w)) = db_table w
      \<and> db_log (snd (downloadAndRestoreS3File e key w)) = db_log w
      \<and> console_error (snd (downloadAndRestoreS3File e key w)) = console_error w @ [ParseError err])
   \<and> (files w0 inputFilePath = Some (Plain text0)
      \<and> csv_parse True text0 = (columns # first # rest, None)
      \<and> distinct columns \<and> list_all (\<lambda>c. \<not> is_array_index c) columns \<longrightarrow>
      preprocessCsvFile inputFilePath outputFilePath w0
        = (Done, w0\<lparr>files := (files w0)(outputFilePath \<mapsto> Plain
             (concat (map (\<lambda>fields. join [comma] fields @ [newline])
                (take (length first) columns
                 # map (\<lambda>r. map (\<lambda>i. if i < length r then r ! i else [])
                                [0 ..< min (length columns) (length first)])
                     (first # rest)))))\<rparr>))"
  using download_parse_error [of w key "text" err e]
    preprocessCsvFile_records [of w0 inputFilePath text0 columns first rest outputFilePath]
  by blast

lemma parse_archive_short:
  "csv_parse True archive_short
     = ([[''ID'', ''NAME''], [''9'', ''y''], [''8''], [''7'', ''z'', ''w'']], None)"
  by (simp add: archive_short_def csv_parse_defs)

lemma parse_archive_short_first:
  "csv_parse True archive_short_first = ([[''ID'', ''NAME''], [''8''], [''9'', ''y'']], None)"
  by (simp add: archive_short_first_def csv_parse_defs)

lemma columns_plain:
  "distinct [''ID'', ''NAME'']" "list_all (\<lambda>c. \<not> is_array_index c) [''ID'', ''NAME'']"
  by (simp_all add: is_array_index_def)

lemma upt_2: "[0 ..< 2] = [0, Suc 0]" "[0 ..< Suc 0] = [0]"
  by (simp_all add: upt_rec)

theorem malformed_record_on_restore_witness:
  "csv_parse True archive_bad = ([[''ID''], [''1'']], Some QuoteNotClosed)
   \<and> db_table (snd (downloadAndRestoreS3File env0 (restore_s3Key env0 ''2022-03'' 1)
        (world_restore archive_bad))) = [row_c]
   \<and> console_error (snd (downloadAndRestoreS3File env0 (restore_s3Key env0 ''2022-03'' 1)
        (world_restore archive_bad))) = [ParseError QuoteNotClosed]
   \<and> csv_parse True archive_short
       = ([[''ID'', ''NAME''], [''9'', ''y''], [''8''], [''7'', ''z'', ''w'']], None)
   \<and> files (snd (preprocessCsvFile (BACKUP_PATH @ ''/temp-file.csv'') ''out.csv''
        (world_local archive_short))) ''out.csv''
       = Some (Plain ''ID,NAME\<newline>9,y\<newline>8,\<newline>7,z\<newline>'')
   \<and> csv_parse True archive_short_first = ([[''ID'', ''NAME''], [''8''], [''9'', ''y'']], None)
   \<and> files (snd (preprocessCsvFile (BACKUP_PATH @ ''/temp-file.csv'') ''out.csv''
        (world_local archive_short_first))) ''out.csv''
       = Some (Plain ''ID\<newline>8\<newline>9\<newline>'')"
proof -
  let ?w = "world_restore archive_bad"
  let ?k = "restore_s3Key env0 ''2022-03'' 1"
  let ?i = "BACKUP_PATH @ ''/temp-file.csv''"
  have b: "bucket ?w ?k = Some (Gzipped archive_bad)"
    by (simp add: world_restore_def)
  have p: "snd (csv_parse True archive_bad) = Some QuoteNotClosed"
    by (simp add: parse_archive_bad)
  have f: "files (world_local t) ?i = Some (Plain t)" for t
    by (simp add: world_local_def)
  note t = malformed_record_on_restore
  from t [of ?w ?k archive_bad QuoteNotClosed env0 "world_local archive_short" ?i archive_short
            "[''ID'', ''NAME'']" "[''9'', ''y'']" "[[''8''], [''7'', ''z'', ''w'']]" "''out.csv''"]
       t [of ?w ?k archive_bad QuoteNotClosed env0 "world_local archive_short_first" ?i
            archive_short_first "[''ID'', ''NAME'']" "[''8'']" "[[''9'', ''y'']]" "''out.csv''"]
       b p f parse_archive_bad parse_archive_short parse_archive_short_first columns_plain
  show ?thesis
    by (simp add: world_restore_def upt_2 comma_def newline_def)
qed

text \<open>
  The archive has a well-formed record and then a record with an unterminated quote: the
  well-formed record is not loaded either.
\<close>

theorem unterminated_quote_stops_restore:
  "csv_parse True archive_bad = ([[''ID''], [''1'']], Some QuoteNotClosed)
   \<and> fst (restore_script env0 ''2022-03'' 1 (world_restore archive_bad)) = Some 0
   \<and> db_table (snd (restore_script env0 ''2022-03'' 1 (world_restore archive_bad))) = [row_c]
   \<and> db_log (snd (restore_script env0 ''2022-03'' 1 (world_restore archive_bad))) = []
   \<and> console_error (snd (restore_script env0 ''2022-03'' 1 (world_restore archive_bad)))
       = [ParseError QuoteNotClosed]"
proof -
  let ?w = "world_restore archive_bad"
  let ?k = "restore_s3Key env0 ''2022-03'' 1"
  have b: "bucket ?w ?k = Some (Gzipped archive_bad)"
    by (simp add: world_restore_def)
  have p: "snd (csv_parse True archive_bad) = Some QuoteNotClosed"
    by (simp add: parse_archive_bad)
  from download_parse_error [OF b p, of env0] parse_archive_bad show ?thesis
    by (simp add: restore_script_world restore_script_code world_restore_def)
qed

text \<open>
  The archive \<open>archive_short\<close> has a record with one field and a record with three
  under two columns: the restore loads all three records, the short one with NULL in the
  column it lacks, the long one without its third field, and prints nothing.
\<close>

lemma processed_short:
  "processed_text (records_of [[''ID'', ''NAME''], [''9'', ''y''], [''8''], [''7'', ''z'', ''w'']])
     = ''ID,NAME\<newline>9,y\<newline>8,\<newline>7,z\<newline>''"
  by (simp add: processed_text_def records_of_def to_object_def get_prop_def Object_keys_def
      is_array_index_def comma_def newline_def)

lemma parse_processed_short:
  "csv_parse True ''ID,NAME\<newline>9,y\<newline>8,\<newline>7,z\<newline>''
     = ([[''ID'', ''NAME''], [''9'', ''y''], [''8'', ''''], [''7'', ''z'']], None)"
  by (simp add: csv_parse_defs)

lemma keys_processed_short:
  "Object_keys (to_object [''ID'', ''NAME''] [''9'', ''y'']) = [''ID'', ''NAME'']"
  by (simp add: to_object_def Object_keys_def is_array_index_def)

lemma copy_lines_short:
  "copy_lines ''ID,NAME\<newline>9,y\<newline>8,\<newline>7,z\<newline>''
     = ([[Some ''ID'', Some ''NAME''], [Some ''9'', Some ''y''], [Some ''8'', None],
         [Some ''7'', Some ''z'']], True)"
  by (simp add: copy_lines_def end_field_def end_line_def dquote_def comma_def newline_def)

lemma load_short:
  assumes "files w p = Some (Plain ''ID,NAME\<newline>9,y\<newline>8,\<newline>7,z\<newline>'')"
  shows "restoreCsvToTable env0 p w
           = (Done, sent Release (COMMIT (sent CopyFrom
                (store (visible w @ [[(''id'', VStr ''9''), (''name'', VStr ''y'')],
                                     [(''id'', VStr ''8''), (''name'', VNull)],
                                     [(''id'', VStr ''7''), (''name'', VStr ''z'')]])
                   (BEGIN (sent Connect w))))))"
  using assms
  by (simp add: restoreCsvToTable_def Let_def readCsvHeaders_def parse_processed_short
      records_of_def keys_processed_short copy_lines_short copy_from_def copy_row_def
      toLowerCase_def env0_def)

lemma short_record_is_loaded:
  "fst (restore_script env0 ''2022-03'' 1 (world_restore archive_short)) = Some 0
   \<and> db_table (snd (restore_script env0 ''2022-03'' 1 (world_restore archive_short)))
       = [row_c, [(''id'', VStr ''9''), (''name'', VStr ''y'')],
                 [(''id'', VStr ''8''), (''name'', VNull)],
                 [(''id'', VStr ''7''), (''name'', VStr ''z'')]]
   \<and> db_log (snd (restore_script env0 ''2022-03'' 1 (world_restore archive_short)))
       = [Connect, Begin, CopyFrom, Commit, Release]
   \<and> console_error (snd (restore_script env0 ''2022-03'' 1 (world_restore archive_short))) = []"
  by (simp add: restore_script_def downloadAndRestoreS3File_def Let_def world_restore_def
      preprocessCsvFile_def parse_archive_short processed_short load_short visible_def)
end
